theory Spec2Isabelle
  imports Main
begin

section \<open>JavaScript values\<close>

text \<open>
  First-order data, as the drivers hand it to the user's functions and receive it back.
  An array carries its elements and its named non-enumerable properties; an object carries
  its enumerable properties, its non-enumerable data properties, and a flag telling whether
  the closure of \<^verbatim>\<open>page.js\<close> line 242 is attached under the name \<^verbatim>\<open>getError\<close>
  (the only function the drivers ever store into a piece of data).
  Numbers are the integer-valued ones.
\<close>

datatype val =
    Undefined
  | Null
  | Bool bool
  | Num int
  | Str string
  | Arr "val list" "(string \<times> val) list"
  | Obj "(string \<times> val) list" "(string \<times> val) list" bool
  | BatchError "val list"
    \<comment> \<open>Modelled from the spec: the aggregate rejection value of \<^verbatim>\<open>batch\<close>
       (\<^verbatim>\<open>./ext/batch\<close> is not among the sources); its \<^verbatim>\<open>getErrors()\<close> returns the
       array of the individual errors held here.\<close>

text \<open>
  A mixed value: plain data, a function, a generator function, or a promise.
  A function is given by what a call with an argument list does: it returns a mixed value
  or throws. A generator function is carried as the behaviour of its adapted form
  (\<^verbatim>\<open>asyncAdapter\<close>): a call returns a promise, or throws when the first step throws.
  A promise (any thenable) is given by how it settles, if it ever does.
  All three nest finitely: a value of this type unwraps in finitely many steps.
\<close>

datatype mixed =
    V val
  | Fn "val list \<Rightarrow> completion"
  | GenFn "val list \<Rightarrow> completion"
  | Promise settlement
and completion =
    Return mixed
  | Throw val
and settlement =
    Fulfil mixed
  | RejectWith val
  | Pending

text \<open>
  An argument of the exported functions that may be an options literal instead of a
  value: \<^verbatim>\<open>{dest: f, limit: 3}\<close> is \<open>Options [(''dest'', Fn f), (''limit'', V (Num 3))]\<close>.
\<close>

datatype arg =
    Plain mixed
  | Options "(string \<times> mixed) list"

text \<open>How the promise returned by a driver ends up; \<open>Thrown\<close> is a synchronous throw.\<close>

datatype outcome =
    Thrown val
  | Resolved val
  | Rejected val
  | Unsettled

fun truthy :: "val \<Rightarrow> bool" where
  "truthy Undefined = False"
| "truthy Null = False"
| "truthy (Bool b) = b"
| "truthy (Num n) = (n \<noteq> 0)"
| "truthy (Str s) = (s \<noteq> [])"
| "truthy (Arr xs hs) = True"
| "truthy (Obj ps hs g) = True"
| "truthy (BatchError es) = True"

fun is_function :: "mixed \<Rightarrow> bool" where
  "is_function (Fn f) = True"
| "is_function (GenFn g) = True"
| "is_function (V v) = False"
| "is_function (Promise s) = False"

text \<open>\<^verbatim>\<open>x && typeof x === 'object'\<close>\<close>

fun is_object :: "mixed \<Rightarrow> bool" where
  "is_object (V (Arr xs hs)) = True"
| "is_object (V (Obj ps hs g)) = True"
| "is_object (V (BatchError es)) = True"
| "is_object (Promise s) = True"
| "is_object (V v) = False"
| "is_object (Fn f) = False"
| "is_object (GenFn g) = False"

fun primitive :: "val \<Rightarrow> bool" where
  "primitive Undefined = True"
| "primitive Null = True"
| "primitive (Bool b) = True"
| "primitive (Num n) = True"
| "primitive (Str s) = True"
| "primitive (Arr xs hs) = False"
| "primitive (Obj ps hs g) = False"
| "primitive (BatchError es) = False"

definition TypeError :: "string \<Rightarrow> val" where
  "TypeError msg = Obj [] [(''name'', Str ''TypeError''), (''message'', Str msg)] False"

subsection \<open>Properties\<close>

fun props :: "val \<Rightarrow> (string \<times> val) list" where
  "props (Arr xs hs) = hs"
| "props (Obj ps hs g) = ps @ hs"
| "props v = []"

text \<open>\<^verbatim>\<open>v.k\<close> for a data property \<open>k\<close>, and \<^verbatim>\<open>k in v\<close>.\<close>

definition get :: "val \<Rightarrow> string \<Rightarrow> val" where
  "get v k = (case map_of (props v) k of Some x \<Rightarrow> x | None \<Rightarrow> Undefined)"

definition has :: "string \<Rightarrow> val \<Rightarrow> bool" where
  "has k v = (map_of (props v) k \<noteq> None)"

fun enumerable :: "val \<Rightarrow> string list" where
  "enumerable (Obj ps hs g) = map fst ps"
| "enumerable v = []"

fun put :: "string \<Rightarrow> val \<Rightarrow> (string \<times> val) list \<Rightarrow> (string \<times> val) list" where
  "put k v [] = [(k, v)]"
| "put k v (p # ps) = (if fst p = k then (k, v) # ps else p # put k v ps)"

text \<open>\<^verbatim>\<open>obj.k = v\<close> on an object literal.\<close>

fun assign :: "val \<Rightarrow> string \<Rightarrow> val \<Rightarrow> val" where
  "assign (Obj ps hs g) k v = Obj (put k v ps) hs g"
| "assign obj k v = obj"

text \<open>\<^verbatim>\<open>x[0]\<close>\<close>

fun first :: "val \<Rightarrow> val" where
  "first (Arr (x # xs) hs) = x"
| "first (Str (c # cs)) = Str [c]"
| "first v = get v ''0''"

section \<open>The state of one invocation\<close>

text \<open>
  What a driver does to the outside, in order: it calls the source, it calls the
  destination, it resumes from the destination's promise once that has resolved; the
  stream reader reads a chunk, calls the receiver, resumes from the receiver's promise.
\<close>

datatype event =
    SourceCall nat "val list"
  | DestCall nat "val list"
  | DestSettled nat
  | StreamRead val
  | ReceiverCall nat "val list"
  | ReceiverSettled

text \<open>
  The variables shared by the closures of one invocation of \<^verbatim>\<open>sequence\<close> or \<^verbatim>\<open>page\<close>.
  \<open>now\<close> lists the readings of \<^verbatim>\<open>Date.now()\<close> in the order they are taken and \<open>ticks\<close>
  counts the readings taken so far. \<open>srcTime\<close>, \<open>destTime\<close> and \<open>cbTime\<close> are read only
  after they have been written.
\<close>

record clock =
  now :: "nat \<Rightarrow> int"
  start :: int

record env = clock +
  source :: mixed
  dest :: "mixed option"
  limit :: int
  track :: bool

record log =
  ticks :: nat
  trace :: "event list"

record vars = log +
  srcTime :: int
  destTime :: int

record sequence_vars = vars +
  data :: val
  result :: "val list"

record page_vars = vars +
  request :: val
  total :: int

text \<open>
  Modelled from the spec: \<^verbatim>\<open>batch\<close> (\<^verbatim>\<open>./ext/batch\<close> is not among the sources) takes the
  items of a page and returns a promise, which resolves with the array of the resolved
  items, rejects with an aggregate error, or stays pending.
\<close>

datatype batched =
    BatchData "val list"
  | BatchReject val
  | BatchPending

text \<open>
  The stream, as far as \<^verbatim>\<open>read\<close> uses it: its listeners, in the order they were added,
  and its buffer. A buffer answers \<^verbatim>\<open>stream.read(size)\<close> with nothing (\<^verbatim>\<open>null\<close>), or
  with a chunk and the buffer that is left; what is buffered at one moment is finite.
\<close>

datatype listener = OnReadable | OnEnd | OnClose | OnError | Foreign nat

datatype reader = Reader "int option \<Rightarrow> chunk"
and chunk = Nothing | Chunk val reader

record read_env = clock +
  receiver :: mixed
  closable :: bool
  readSize :: "int option"

record read_vars = log +
  reads :: int
  length_r :: int
  index :: nat
  cbTime :: int
  ready :: bool
  waiting :: bool
  stop :: bool
  listeners :: "(string \<times> listener) list"
  buffer :: reader
  awaited :: "settlement option"
  settled :: "outcome option"

section \<open>utils.js\<close>

fun isPromise :: "mixed \<Rightarrow> bool" where
  "isPromise (Promise s) = True"
| "isPromise m = False"

text \<open>
  \<^verbatim>\<open>extend(obj, name, value)\<close>: the property becomes read-only and non-enumerable.
  The value is a piece of data, or the \<^verbatim>\<open>getError\<close> closure of \<^verbatim>\<open>page.js\<close>.
\<close>

datatype extension = Data val | GetErrorClosure

fun extend :: "val \<Rightarrow> string \<Rightarrow> extension \<Rightarrow> val" where
  "extend (Arr xs hs) name (Data v) = Arr xs (filter (\<lambda>p. fst p \<noteq> name) hs @ [(name, v)])"
| "extend (Obj ps hs g) name (Data v) =
     Obj (filter (\<lambda>p. fst p \<noteq> name) ps) (filter (\<lambda>p. fst p \<noteq> name) hs @ [(name, v)]) g"
| "extend (Obj ps hs g) name GetErrorClosure =
     (if name = ''getError''
      then Obj (filter (\<lambda>p. fst p \<noteq> name) ps) (filter (\<lambda>p. fst p \<noteq> name) hs) True
      else Obj ps hs g)"
| "extend obj name x = obj"

datatype resolution =
    Success val bool
  | Failure val
  | Stalled

text \<open>
  The loop of \<^verbatim>\<open>resolve(value, params, onSuccess, onError)\<close>. It returns which callback
  is called, with what (\<open>Stalled\<close>: neither, the promise stays pending), and the argument
  lists of the calls it made, in order.
\<close>

primrec resolve_loop :: "mixed \<Rightarrow> val list option \<Rightarrow> bool \<Rightarrow> resolution \<times> val list list"
  and resolve_call :: "completion \<Rightarrow> val list option \<Rightarrow> bool \<Rightarrow> resolution \<times> val list list"
  and resolve_then :: "settlement \<Rightarrow> val list option \<Rightarrow> bool \<Rightarrow> resolution \<times> val list list"
where
  "resolve_loop (V v) params delayed = (Success v delayed, [])"
| "resolve_loop (Fn f) params delayed =
     apsnd ((#) (case params of Some ps \<Rightarrow> ps | None \<Rightarrow> []))
       (resolve_call (f (case params of Some ps \<Rightarrow> ps | None \<Rightarrow> [])) params delayed)"
| "resolve_loop (GenFn g) params delayed =
     apsnd ((#) (case params of Some ps \<Rightarrow> ps | None \<Rightarrow> []))
       (resolve_call (g (case params of Some ps \<Rightarrow> ps | None \<Rightarrow> [])) params delayed)"
| "resolve_loop (Promise s) params delayed = resolve_then s params delayed"
| "resolve_call (Return value) params delayed = resolve_loop value params delayed"
| "resolve_call (Throw e) params delayed = (Failure e, [])"
| "resolve_then (Fulfil d) params delayed = resolve_loop d params True"
| "resolve_then (RejectWith error) params delayed = (Failure error, [])"
| "resolve_then Pending params delayed = (Stalled, [])"

definition resolve :: "mixed \<Rightarrow> val list option \<Rightarrow> resolution" where
  "resolve value params = fst (resolve_loop value params False)"

definition invocations :: "mixed \<Rightarrow> val list option \<Rightarrow> val list list" where
  "invocations value params = snd (resolve_loop value params False)"

text \<open>The generator-to-promise adapter: the model already holds the adapted behaviour.\<close>

definition asyncAdapter :: "(val list \<Rightarrow> completion) \<Rightarrow> mixed" where
  "asyncAdapter generator = Fn generator"

fun wrap :: "mixed \<Rightarrow> mixed option" where
  "wrap (GenFn g) = Some (asyncAdapter g)"
| "wrap (Fn f) = Some (Fn f)"
| "wrap m = None"

text \<open>\<^verbatim>\<open>func.call(self, a, b, c)\<close> on a wrapped function.\<close>

fun call :: "mixed \<Rightarrow> val list \<Rightarrow> completion" where
  "call (Fn f) args = f args"
| "call (GenFn g) args = g args"
| "call m args = Throw (TypeError ''not a function'')"

text \<open>
  Numbers. \<open>Num n\<close> is an integer-valued number. A JavaScript number holds an integer
  exactly up to \<open>2\<^sup>5\<^sup>3\<close>; a larger one is read as the nearest number with 53 significant
  bits, ties to the even one, and from \<open>2\<^sup>1\<^sup>0\<^sup>2\<^sup>4\<close> on it is \<^verbatim>\<open>Infinity\<close>.
\<close>

fun bit_length :: "nat \<Rightarrow> nat" where
  "bit_length n = (if n = 0 then 0 else Suc (bit_length (n div 2)))"

definition number :: "nat \<Rightarrow> nat" where
  "number n =
     (if n \<le> 2 ^ 53 then n
      else let e = bit_length n - 53; q = n div 2 ^ e; r = n mod 2 ^ e; h = 2 ^ (e - 1)
           in if h < r \<or> (r = h \<and> odd q) then (q + 1) * 2 ^ e else q * 2 ^ e)"

text \<open>
  \<^verbatim>\<open>parseInt(d)\<close> of a positive number \<open>d\<close>: the number is printed first. Below \<open>10\<^sup>2\<^sup>1\<close> all
  its digits are printed; from \<open>10\<^sup>2\<^sup>1\<close> on it is printed in exponent form, with the fewest
  digits that read back as \<open>d\<close>, and \<^verbatim>\<open>parseInt\<close> stops at the point, so it yields the
  leading digit. That digit is the one of \<open>d\<close> unless the next number \<open>b\<close> above \<open>d\<close> with
  one significant digit still reads back as \<open>d\<close>; \<^verbatim>\<open>parseInt('Infinity')\<close> is \<^verbatim>\<open>NaN\<close>,
  here \<open>None\<close>.
\<close>

fun leading :: "nat \<Rightarrow> nat" where
  "leading n = (if n < 10 then n else leading (n div 10))"

fun decimals :: "nat \<Rightarrow> nat" where
  "decimals n = (if n < 10 then 1 else Suc (decimals (n div 10)))"

definition printed_leading :: "nat \<Rightarrow> nat" where
  "printed_leading d =
     (let p = 10 ^ (decimals d - 1); b = ((d + p - 1) div p) * p;
          e = bit_length d - 53; q = d div 2 ^ e; g = b - d
      in if 2 * g < 2 ^ e \<or> (2 * g = 2 ^ e \<and> even q) then leading b else leading d)"

definition parseInt_number :: "nat \<Rightarrow> int option" where
  "parseInt_number n =
     (let d = number n
      in if 2 ^ 1024 \<le> d then None
         else if d < 10 ^ 21 then Some (int d)
         else Some (int (printed_leading d)))"

text \<open>
  Strings as numbers; a character is a code unit below 256. \<open>digit radix c\<close> is the value
  of \<open>c\<close> as a digit, \<open>literal radix s\<close> the value of a string of digits only.
\<close>

definition space :: "char \<Rightarrow> bool" where
  "space c = (of_char c \<in> {9, 10, 11, 12, 13, 32, 160 :: nat})"

definition trim :: "string \<Rightarrow> string" where
  "trim s = rev (dropWhile space (rev (dropWhile space s)))"

definition digit :: "nat \<Rightarrow> char \<Rightarrow> nat option" where
  "digit radix c =
     (let k = of_char c :: nat;
          v = (if 48 \<le> k \<and> k \<le> 57 then Some (k - 48)
               else if 97 \<le> k \<and> k \<le> 122 then Some (k - 87)
               else if 65 \<le> k \<and> k \<le> 90 then Some (k - 55)
               else None)
      in case v of Some d \<Rightarrow> if d < radix then Some d else None | None \<Rightarrow> None)"

definition digits_value :: "nat \<Rightarrow> string \<Rightarrow> nat" where
  "digits_value radix s =
     foldl (\<lambda>a c. a * radix + (case digit radix c of Some d \<Rightarrow> d | None \<Rightarrow> 0)) 0 s"

definition literal :: "nat \<Rightarrow> string \<Rightarrow> nat option" where
  "literal radix s =
     (if s \<noteq> [] \<and> list_all (\<lambda>c. digit radix c \<noteq> None) s then Some (digits_value radix s)
      else None)"

definition signed :: "string \<Rightarrow> bool \<times> string" where
  "signed s =
     (case s of
        c # r \<Rightarrow> if c = CHR ''-'' then (True, r) else if c = CHR ''+'' then (False, r)
                 else (False, s)
      | [] \<Rightarrow> (False, []))"

text \<open>
  \<^verbatim>\<open>parseInt(s)\<close> of a string: white space in front, a sign, \<^verbatim>\<open>0x\<close> for radix 16, then
  the longest run of digits; none is \<^verbatim>\<open>NaN\<close>, here \<open>None\<close>.
\<close>

definition parseInt_string :: "string \<Rightarrow> int option" where
  "parseInt_string s =
     (let (neg, u) = signed (dropWhile space s);
          hex = (take 2 u = ''0x'' \<or> take 2 u = ''0X'');
          radix = (if hex then 16 else 10);
          ds = takeWhile (\<lambda>c. digit radix c \<noteq> None) (if hex then drop 2 u else u)
      in if ds = [] then None
         else Some ((if neg then - 1 else 1) * int (number (digits_value radix ds))))"

text \<open>
  \<^verbatim>\<open>s > 0\<close> for a string: the string is read as a numeric literal, white space on both
  sides set aside. \<open>above_zero m k\<close> says that \<open>m * 10\<^sup>k\<close> is not rounded to 0, which
  numbers up to \<open>2\<^sup>-\<^sup>1\<^sup>0\<^sup>7\<^sup>5\<close> are.
\<close>

definition exponent :: "string \<Rightarrow> int option" where
  "exponent r =
     (case r of
        [] \<Rightarrow> Some 0
      | c # t \<Rightarrow>
          if c = CHR ''e'' \<or> c = CHR ''E''
          then (let (neg, u) = signed t
                in case literal 10 u of
                     Some x \<Rightarrow> Some (if neg then - int x else int x)
                   | None \<Rightarrow> None)
          else None)"

definition above_zero :: "nat \<Rightarrow> int \<Rightarrow> bool" where
  "above_zero m k = (0 < m \<and> (0 \<le> k \<or> 10 ^ nat (- k) < m * 2 ^ 1075))"

definition decimal_positive :: "string \<Rightarrow> bool" where
  "decimal_positive s =
     (s = ''Infinity'' \<or>
      (let dec = (\<lambda>c. digit 10 c \<noteq> None);
           a = takeWhile dec s; r = dropWhile dec s;
           (f, t) = (case r of
                       c # u \<Rightarrow> if c = CHR ''.'' then (takeWhile dec u, dropWhile dec u)
                                else ([], r)
                     | [] \<Rightarrow> ([], []))
       in (a \<noteq> [] \<or> f \<noteq> []) \<and>
          (case exponent t of
             Some x \<Rightarrow> above_zero (digits_value 10 (a @ f)) (x - int (length f))
           | None \<Rightarrow> False)))"

definition string_positive :: "string \<Rightarrow> bool" where
  "string_positive s =
     (let t = trim s; p = take 2 t; (neg, u) = signed t
      in if p = ''0x'' \<or> p = ''0X''
         then (case literal 16 (drop 2 t) of Some v \<Rightarrow> 0 < v | None \<Rightarrow> False)
         else if p = ''0o'' \<or> p = ''0O''
         then (case literal 8 (drop 2 t) of Some v \<Rightarrow> 0 < v | None \<Rightarrow> False)
         else if p = ''0b'' \<or> p = ''0B''
         then (case literal 2 (drop 2 t) of Some v \<Rightarrow> 0 < v | None \<Rightarrow> False)
         else \<not> neg \<and> decimal_positive u)"

text \<open>
  \<^verbatim>\<open>(x > 0) ? parseInt(x) : d\<close>, where \<open>None\<close> stands for \<open>d\<close> and for \<^verbatim>\<open>NaN\<close>, which never
  equals a count. Both the comparison and \<^verbatim>\<open>parseInt\<close> coerce \<open>x\<close>: a string is read as
  above; an array is joined first, so an array of one element is read as that element,
  and any other array as the empty string or one with a comma; \<^verbatim>\<open>undefined\<close>,
  \<^verbatim>\<open>null\<close>, \<^verbatim>\<open>false\<close>, the text of an object, of a function and of a promise are not
  above 0, and \<^verbatim>\<open>parseInt(true)\<close> is \<^verbatim>\<open>NaN\<close>.
\<close>

fun positive_val :: "val \<Rightarrow> int option" where
  "positive_val (Num n) = (if 0 < n then parseInt_number (nat n) else None)"
| "positive_val (Str s) = (if string_positive s then parseInt_string s else None)"
| "positive_val (Arr [x] hs) = positive_val x"
| "positive_val v = None"

fun positive :: "mixed \<Rightarrow> int option" where
  "positive (V v) = positive_val v"
| "positive m = None"

fun truthy_arg :: "mixed \<Rightarrow> bool" where
  "truthy_arg (V v) = truthy v"
| "truthy_arg m = True"

text \<open>\<^verbatim>\<open>a.k\<close> and \<^verbatim>\<open>a && typeof a === 'object'\<close> on an argument.\<close>

fun member :: "arg \<Rightarrow> string \<Rightarrow> mixed" where
  "member (Options ps) k = (case map_of ps k of Some m \<Rightarrow> m | None \<Rightarrow> V Undefined)"
| "member (Plain (V v)) k = V (get v k)"
| "member (Plain m) k = V Undefined"

fun is_options :: "arg \<Rightarrow> bool" where
  "is_options (Options ps) = True"
| "is_options (Plain m) = is_object m"

section \<open>sequence.js\<close>

definition sequence_finish :: "env \<Rightarrow> nat \<Rightarrow> sequence_vars \<Rightarrow> outcome \<times> sequence_vars" where
  "sequence_finish e idx s =
     (let length = now e (ticks s) - start e;
          s = s\<lparr>ticks := Suc (ticks s)\<rparr>
      in if track e
         then (Resolved (extend (Arr (result s) []) ''duration'' (Data (Num length))), s)
         else (Resolved (Obj [(''total'', Num (int idx)), (''duration'', Num length)] [] False), s))"

text \<open>
  One iteration of \<^verbatim>\<open>loop(idx)\<close> ends by settling the promise (or by waiting for a
  promise that stays pending), or in the call \<^verbatim>\<open>next(delayed)\<close>.
\<close>

datatype 'a turn =
    Ends outcome 'a
  | Next bool 'a

definition sequence_turn :: "env \<Rightarrow> nat \<Rightarrow> sequence_vars \<Rightarrow> sequence_vars turn" where
  "sequence_turn e idx s =
     (let srcNow = now e (ticks s);
          srcDelay = (if idx \<noteq> 0 then Num (srcNow - srcTime s) else Undefined);
          s = s\<lparr>ticks := Suc (ticks s), srcTime := srcNow,
                 trace := trace s @ [SourceCall idx [Num (int idx), data s, srcDelay]]\<rparr>
      in case resolve (source e) (Some [Num (int idx), data s, srcDelay]) of
           Failure reason \<Rightarrow>
             Ends (Rejected (Obj [(''index'', Num (int idx)), (''error'', reason),
                                  (''source'', data s)] [] False)) s
         | Stalled \<Rightarrow> Ends Unsettled s
         | Success value delayed \<Rightarrow>
             (let s = s\<lparr>data := value\<rparr>
              in if data s = Undefined
                 then Ends (fst (sequence_finish e idx s)) (snd (sequence_finish e idx s))
                 else
                   (let s = (if track e then s\<lparr>result := result s @ [data s]\<rparr> else s)
                    in case dest e of
                         None \<Rightarrow> Next delayed s
                       | Some d \<Rightarrow>
                           (let destNow = now e (ticks s);
                                destDelay = (if idx \<noteq> 0 then Num (destNow - destTime s)
                                             else Undefined);
                                s = s\<lparr>ticks := Suc (ticks s), destTime := destNow,
                                       trace := trace s @
                                         [DestCall idx [Num (int idx), data s, destDelay]]\<rparr>
                            in case call d [Num (int idx), data s, destDelay] of
                                 Throw e' \<Rightarrow>
                                   Ends (Rejected (Obj [(''index'', Num (int idx)),
                                     (''error'', e'), (''dest'', data s)] [] False)) s
                               | Return destResult \<Rightarrow>
                                   (case destResult of
                                      Promise p \<Rightarrow>
                                        (case p of
                                           Fulfil x \<Rightarrow>
                                             Next True (s\<lparr>trace := trace s @ [DestSettled idx]\<rparr>)
                                         | RejectWith error \<Rightarrow>
                                             Ends (Rejected (Obj [(''index'', Num (int idx)),
                                               (''error'', error), (''dest'', data s)] [] False)) s
                                         | Pending \<Rightarrow> Ends Unsettled s)
                                    | _ \<Rightarrow> Next delayed s)))))"

text \<open>
  \<open>sequence_loop\<close> is \<^verbatim>\<open>loop(idx)\<close> and \<open>sequence_next\<close> is \<^verbatim>\<open>next(delayed)\<close>. The first
  argument bounds the number of iterations: \<open>None\<close> is a loop still running when the
  bound is used up. \<^verbatim>\<open>next\<close> enters the next iteration at once or from a fresh
  \<^verbatim>\<open>$p.resolve().then\<close>, which is the same iteration either way.
\<close>

function sequence_loop :: "nat \<Rightarrow> env \<Rightarrow> nat \<Rightarrow> sequence_vars \<Rightarrow> (outcome \<times> sequence_vars) option"
  and sequence_next :: "nat \<Rightarrow> env \<Rightarrow> bool \<Rightarrow> nat \<Rightarrow> sequence_vars \<Rightarrow> (outcome \<times> sequence_vars) option"
where
  "sequence_loop 0 e idx s = None"
| "sequence_loop (Suc n) e idx s =
     (case sequence_turn e idx s of
        Ends out s' \<Rightarrow> Some (out, s')
      | Next delayed s' \<Rightarrow> sequence_next n e delayed idx s')"
| "sequence_next n e delayed idx s =
     (if limit e = int (Suc idx) then Some (sequence_finish e (Suc idx) s)
      else sequence_loop n e (Suc idx) s)"
  by pat_completeness auto
termination
  by (relation "measure (\<lambda>x. case x of Inl (n, e, idx, s) \<Rightarrow> 2 * n
                                     | Inr (n, e, delayed, idx, s) \<Rightarrow> 2 * n + 1)") auto

text \<open>
  \<^verbatim>\<open>sequence(source, dest, limit, track)\<close>, with the clock and the bound on the iterations;
  the arguments are named \<open>source0\<close>, ... before the function normalises them. The first
  reading of the clock is \<^verbatim>\<open>start\<close>; \<^verbatim>\<open>page\<close> sets up the same variables, without
  \<^verbatim>\<open>track\<close>. The counter \<^verbatim>\<open>idx\<close> is a number, which \<^verbatim>\<open>++idx\<close> takes up to \<open>2\<^sup>5\<^sup>3\<close> and
  no further, so a limit above \<open>2\<^sup>5\<^sup>3\<close> is never met, as the limit 0.
\<close>

definition driver_env :: "(nat \<Rightarrow> int) \<Rightarrow> mixed \<Rightarrow> mixed \<Rightarrow> mixed \<Rightarrow> mixed \<Rightarrow> env" where
  "driver_env clk source0 dest0 limit0 track0 =
     \<lparr>now = clk, start = clk 0,
      source = (case wrap source0 of Some f \<Rightarrow> f | None \<Rightarrow> V Null),
      dest = wrap dest0,
      limit = (case positive limit0 of
                 Some n \<Rightarrow> if n \<le> 2 ^ 53 then n else 0
               | None \<Rightarrow> 0),
      track = truthy_arg track0\<rparr>"

definition sequence_init :: sequence_vars where
  "sequence_init =
     \<lparr>ticks = 1, trace = [], srcTime = 0, destTime = 0, data = Undefined, result = []\<rparr>"

definition sequence :: "(nat \<Rightarrow> int) \<Rightarrow> nat \<Rightarrow> mixed \<Rightarrow> mixed \<Rightarrow> mixed \<Rightarrow> mixed
    \<Rightarrow> (outcome \<times> sequence_vars) option" where
  "sequence clk fuel source0 dest0 limit0 track0 =
     (if \<not> is_function source0
      then Some (Thrown (TypeError ''Invalid sequence source.''), sequence_init\<lparr>ticks := 0\<rparr>)
      else sequence_loop fuel (driver_env clk source0 dest0 limit0 track0) 0 sequence_init)"

text \<open>\<^verbatim>\<open>_sequence\<close>, the function the module exports.\<close>

definition sequence' :: "(nat \<Rightarrow> int) \<Rightarrow> nat \<Rightarrow> mixed \<Rightarrow> arg \<Rightarrow> mixed \<Rightarrow> mixed
    \<Rightarrow> (outcome \<times> sequence_vars) option" where
  "sequence' clk fuel source0 dest0 limit0 track0 =
     (if is_options dest0
      then sequence clk fuel source0 (member dest0 ''dest'') (member dest0 ''limit'')
             (member dest0 ''track'')
      else (case dest0 of
              Plain d \<Rightarrow> sequence clk fuel source0 d limit0 track0
            | Options ps \<Rightarrow> sequence clk fuel source0 (V Undefined) limit0 track0))"

section \<open>page.js\<close>

definition page_success :: "env \<Rightarrow> nat \<Rightarrow> page_vars \<Rightarrow> outcome \<times> page_vars" where
  "page_success e idx s =
     (Resolved (Obj [(''pages'', Num (int idx)), (''total'', Num (total s)),
                     (''duration'', Num (now e (ticks s) - start e))] [] False),
      s\<lparr>ticks := Suc (ticks s)\<rparr>)"

definition page_fail :: "nat \<Rightarrow> val \<Rightarrow> outcome" where
  "page_fail idx reason =
     Rejected (extend (assign reason ''index'' (Num (int idx))) ''getError'' GetErrorClosure)"

text \<open>
  One iteration of \<^verbatim>\<open>loop(idx)\<close> of \<^verbatim>\<open>page\<close>; its \<^verbatim>\<open>next()\<close> takes no argument, the
  flag of \<open>Next\<close> is unused here.
\<close>

definition page_turn :: "(val list \<Rightarrow> batched) \<Rightarrow> env \<Rightarrow> nat \<Rightarrow> page_vars \<Rightarrow> page_vars turn" where
  "page_turn batch e idx s =
     (let srcNow = now e (ticks s);
          srcDelay = (if idx \<noteq> 0 then Num (srcNow - srcTime s) else Undefined);
          s = s\<lparr>ticks := Suc (ticks s), srcTime := srcNow,
                 trace := trace s @ [SourceCall idx [Num (int idx), request s, srcDelay]]\<rparr>
      in case resolve (source e) (Some [Num (int idx), request s, srcDelay]) of
           Failure reason \<Rightarrow>
             Ends (page_fail idx (Obj [(''error'', reason), (''source'', request s)] [] False)) s
         | Stalled \<Rightarrow> Ends Unsettled s
         | Success value delayed \<Rightarrow>
             (if value = Undefined
              then Ends (fst (page_success e idx s)) (snd (page_success e idx s))
              else
                (case value of
                   Arr items hs \<Rightarrow>
                     (case batch items of
                        BatchData d \<Rightarrow>
                          (let s = s\<lparr>request := Arr d [], total := total s + int (length d)\<rparr>
                           in case dest e of
                                None \<Rightarrow> Next False s
                              | Some f \<Rightarrow>
                                  (let destNow = now e (ticks s);
                                       destDelay = (if idx \<noteq> 0 then Num (destNow - destTime s)
                                                    else Undefined);
                                       s = s\<lparr>ticks := Suc (ticks s), destTime := destNow,
                                              trace := trace s @
                                                [DestCall idx [Num (int idx), Arr d [], destDelay]]\<rparr>
                                   in case call f [Num (int idx), Arr d [], destDelay] of
                                        Throw err \<Rightarrow>
                                          Ends (page_fail idx
                                            (Obj [(''error'', err), (''dest'', Arr d [])] [] False)) s
                                      | Return destResult \<Rightarrow>
                                          (case destResult of
                                             Promise p \<Rightarrow>
                                               (case p of
                                                  Fulfil x \<Rightarrow>
                                                    Next False
                                                      (s\<lparr>trace := trace s @ [DestSettled idx]\<rparr>)
                                                | RejectWith error \<Rightarrow>
                                                    Ends (page_fail idx
                                                      (Obj [(''error'', error), (''dest'', Arr d [])]
                                                         [] False)) s
                                                | Pending \<Rightarrow> Ends Unsettled s)
                                           | _ \<Rightarrow> Next False s)))
                      | BatchReject error \<Rightarrow>
                          Ends (page_fail idx (Obj [(''data'', error)] [] False)) s
                      | BatchPending \<Rightarrow> Ends Unsettled s)
                 | _ \<Rightarrow>
                     Ends (page_fail idx
                       (Obj [(''error'', Str ''Unexpected data returned from the source.''),
                             (''source'', request s)] [] False)) s)))"

function page_loop :: "nat \<Rightarrow> (val list \<Rightarrow> batched) \<Rightarrow> env \<Rightarrow> nat \<Rightarrow> page_vars
    \<Rightarrow> (outcome \<times> page_vars) option"
  and page_next :: "nat \<Rightarrow> (val list \<Rightarrow> batched) \<Rightarrow> env \<Rightarrow> nat \<Rightarrow> page_vars
    \<Rightarrow> (outcome \<times> page_vars) option"
where
  "page_loop 0 batch e idx s = None"
| "page_loop (Suc n) batch e idx s =
     (case page_turn batch e idx s of
        Ends out s' \<Rightarrow> Some (out, s')
      | Next delayed s' \<Rightarrow> page_next n batch e idx s')"
| "page_next n batch e idx s =
     (if limit e = int (Suc idx) then Some (page_success e (Suc idx) s)
      else page_loop n batch e (Suc idx) s)"
  by pat_completeness auto
termination
  by (relation "measure (\<lambda>x. case x of Inl (n, b, e, idx, s) \<Rightarrow> 2 * n
                                     | Inr (n, b, e, idx, s) \<Rightarrow> 2 * n + 1)") auto

text \<open>\<^verbatim>\<open>page(source, dest, limit)\<close>, with \<^verbatim>\<open>$spex.batch\<close>, the clock and the bound.\<close>

definition page_init :: page_vars where
  "page_init =
     \<lparr>ticks = 1, trace = [], srcTime = 0, destTime = 0, request = Undefined, total = 0\<rparr>"

definition page :: "(val list \<Rightarrow> batched) \<Rightarrow> (nat \<Rightarrow> int) \<Rightarrow> nat \<Rightarrow> mixed \<Rightarrow> mixed \<Rightarrow> mixed
    \<Rightarrow> (outcome \<times> page_vars) option" where
  "page batch clk fuel source0 dest0 limit0 =
     (if \<not> is_function source0
      then Some (Thrown (TypeError ''Invalid page source.''), page_init\<lparr>ticks := 0\<rparr>)
      else page_loop fuel batch (driver_env clk source0 dest0 limit0 (V Undefined)) 0 page_init)"

text \<open>\<^verbatim>\<open>_page\<close>, the function the module exports.\<close>

definition page' :: "(val list \<Rightarrow> batched) \<Rightarrow> (nat \<Rightarrow> int) \<Rightarrow> nat \<Rightarrow> mixed \<Rightarrow> arg \<Rightarrow> mixed
    \<Rightarrow> (outcome \<times> page_vars) option" where
  "page' batch clk fuel source0 dest0 limit0 =
     (if is_options dest0
      then page batch clk fuel source0 (member dest0 ''dest'') (member dest0 ''limit'')
      else (case dest0 of
              Plain d \<Rightarrow> page batch clk fuel source0 d limit0
            | Options ps \<Rightarrow> page batch clk fuel source0 (V Undefined) limit0))"

text \<open>
  \<^verbatim>\<open>data.getErrors()\<close> (modelled from the spec, on the aggregate error of \<^verbatim>\<open>batch\<close>) and
  \<^verbatim>\<open>reason.getError()\<close>: a call returns a value or throws.
\<close>

datatype answer = Value val | Raised val

fun getErrors :: "val \<Rightarrow> answer" where
  "getErrors (BatchError es) = Value (Arr es [])"
| "getErrors v = Raised (TypeError ''getErrors is not a function'')"

text \<open>The closure of \<^verbatim>\<open>fail\<close>, on the \<^verbatim>\<open>reason\<close> it closes over.\<close>

definition getError_closure :: "val \<Rightarrow> answer" where
  "getError_closure reason =
     (if has ''data'' reason
      then (case getErrors (get reason ''data'') of
              Value errors \<Rightarrow> Value (first errors)
            | Raised e \<Rightarrow> Raised e)
      else Value (get reason ''error''))"

fun getError :: "val \<Rightarrow> answer" where
  "getError (Obj ps hs True) = getError_closure (Obj ps hs True)"
| "getError v = Raised (TypeError ''getError is not a function'')"

section \<open>stream/read.js\<close>

text \<open>\<^verbatim>\<open>page.length || 0\<close> of a chunk.\<close>

fun length_of :: "val \<Rightarrow> int" where
  "length_of (Arr xs hs) = int (length xs)"
| "length_of (Str cs) = int (length cs)"
| "length_of v = (case get v ''length'' of Num n \<Rightarrow> n | _ \<Rightarrow> 0)"

text \<open>
  The \<^verbatim>\<open>do ... while (page)\<close> loop of \<^verbatim>\<open>process\<close>, on the array it fills and the two
  counters it advances; it returns them with the buffer that is left.
\<close>

primrec read_pages :: "reader \<Rightarrow> int option \<Rightarrow> val list \<times> int \<times> int
    \<Rightarrow> (val list \<times> int \<times> int) \<times> reader"
  and read_page :: "chunk \<Rightarrow> int option \<Rightarrow> val list \<times> int \<times> int
    \<Rightarrow> ((val list \<times> int \<times> int) \<times> reader) option"
where
  "read_pages (Reader rd) sz acc =
     (case read_page (rd sz) sz acc of
        None \<Rightarrow> (acc, Reader rd)
      | Some r \<Rightarrow> r)"
| "read_page Nothing sz acc = None"
| "read_page (Chunk pg rest) sz acc =
     (if truthy pg
      then Some (read_pages rest sz
                   (fst acc @ [pg], fst (snd acc) + length_of pg, snd (snd acc) + 1))
      else Some (acc, rest))"

text \<open>\<^verbatim>\<open>stream.removeListener(name, f)\<close> takes the latest instance of the listener away.\<close>

definition removeListener :: "string \<Rightarrow> listener \<Rightarrow> (string \<times> listener) list
    \<Rightarrow> (string \<times> listener) list" where
  "removeListener name f ls = rev (remove1 (name, f) (rev ls))"

definition cleanup :: "read_vars \<Rightarrow> read_vars" where
  "cleanup s =
     s\<lparr>listeners :=
         removeListener ''end'' OnEnd
           (removeListener ''error'' OnError
              (removeListener ''close'' OnClose
                 (removeListener ''readable'' OnReadable (listeners s))))\<rparr>"

text \<open>\<^verbatim>\<open>resolve(x)\<close> and \<^verbatim>\<open>reject(x)\<close> of the promise: the first one settles it.\<close>

definition conclude :: "outcome \<Rightarrow> read_vars \<Rightarrow> read_vars" where
  "conclude x s = (case settled s of None \<Rightarrow> s\<lparr>settled := Some x\<rparr> | Some y \<Rightarrow> s)"

definition success :: "read_env \<Rightarrow> read_vars \<Rightarrow> read_vars" where
  "success e s =
     (let s = cleanup s;
          duration = now e (ticks s) - start e;
          s = s\<lparr>ticks := Suc (ticks s)\<rparr>
      in conclude
           (Resolved (Obj [(''calls'', Num (int (index s))), (''reads'', Num (reads s)),
                           (''length'', Num (length_r s)), (''duration'', Num duration)] [] False))
           s)"

definition fail :: "val \<Rightarrow> read_vars \<Rightarrow> read_vars" where
  "fail error s = conclude (Rejected error) (cleanup (s\<lparr>stop := True\<rparr>))"

function process :: "read_env \<Rightarrow> read_vars \<Rightarrow> read_vars" where
  "process e s =
     (if \<not> ready s \<or> stop s \<or> waiting s then s
      else
        (let s = s\<lparr>ready := False, waiting := True\<rparr>;
             r = read_pages (buffer s) (readSize e) ([], length_r s, reads s);
             chunks = fst (fst r);
             s = s\<lparr>length_r := fst (snd (fst r)), reads := snd (snd (fst r)), buffer := snd r,
                    trace := trace s @ map StreamRead chunks\<rparr>
         in if chunks = [] then s\<lparr>waiting := False\<rparr>
            else
              (let cbNow = now e (ticks s);
                   cbDelay = (if index s \<noteq> 0 then Num (cbNow - cbTime s) else Undefined);
                   args = [Num (int (index s)), Arr chunks [], cbDelay];
                   s = s\<lparr>ticks := Suc (ticks s), cbTime := cbNow, index := Suc (index s),
                          trace := trace s @ [ReceiverCall (index s) args]\<rparr>
               in case call (receiver e) args of
                    Throw err \<Rightarrow> fail err s
                  | Return ret \<Rightarrow>
                      (case ret of
                         Promise p \<Rightarrow> s\<lparr>awaited := Some p\<rparr>
                       | _ \<Rightarrow> process e (s\<lparr>waiting := False\<rparr>)))))"
  by pat_completeness auto
termination
  by (relation "measure (\<lambda>(e, s). if ready s then 1 else 0)") auto

declare process.simps [simp del]

text \<open>The four listeners; a listener of somebody else does nothing to this invocation.\<close>

fun listener_call :: "read_env \<Rightarrow> listener \<Rightarrow> val \<Rightarrow> read_vars \<Rightarrow> read_vars" where
  "listener_call e OnReadable x s = process e (s\<lparr>ready := True\<rparr>)"
| "listener_call e OnEnd x s = (if \<not> closable e then success e s else s)"
| "listener_call e OnClose x s = success e s"
| "listener_call e OnError x s = fail x s"
| "listener_call e (Foreign k) x s = s"

text \<open>
  What happens to a running invocation: the stream emits an event to the listeners it
  has at that moment, data arrives in the stream's buffer, or the promise that the
  receiver returned settles and its \<^verbatim>\<open>then\<close> or \<^verbatim>\<open>catch\<close> callback runs.
\<close>

datatype stimulus =
    Emit string val
  | Arrive reader
  | Settle

definition emit :: "read_env \<Rightarrow> string \<Rightarrow> val \<Rightarrow> read_vars \<Rightarrow> read_vars" where
  "emit e name x s =
     fold (\<lambda>f. listener_call e f x) (map snd (filter (\<lambda>p. fst p = name) (listeners s))) s"

definition settle :: "read_env \<Rightarrow> read_vars \<Rightarrow> read_vars" where
  "settle e s =
     (case awaited s of
        None \<Rightarrow> s
      | Some p \<Rightarrow>
          (case p of
             Fulfil x \<Rightarrow>
               process e (s\<lparr>awaited := None, waiting := False,
                             trace := trace s @ [ReceiverSettled]\<rparr>)
           | RejectWith error \<Rightarrow> fail error (s\<lparr>awaited := None\<rparr>)
           | Pending \<Rightarrow> s))"

fun step :: "read_env \<Rightarrow> stimulus \<Rightarrow> read_vars \<Rightarrow> read_vars" where
  "step e (Emit name x) s = emit e name x s"
| "step e (Arrive r) s = s\<lparr>buffer := r\<rparr>"
| "step e Settle s = settle e s"

definition run :: "read_env \<Rightarrow> stimulus list \<Rightarrow> read_vars \<Rightarrow> read_vars" where
  "run e stimuli s = fold (step e) stimuli s"

text \<open>
  \<^verbatim>\<open>read(stream, receiver, closable, readSize)\<close>: it throws, or it leaves a running
  invocation behind, with its four listeners added to the stream. The size handed to
  \<^verbatim>\<open>stream.read\<close> is \<^verbatim>\<open>(readSize > 0) ? parseInt(readSize) : null\<close>; \<open>None\<close> stands for
  \<^verbatim>\<open>null\<close> and for \<^verbatim>\<open>NaN\<close>, neither of which is a size.
\<close>

datatype stream_arg =
    Stream "(string \<times> listener) list" reader
  | NotStream mixed

definition read :: "(nat \<Rightarrow> int) \<Rightarrow> stream_arg \<Rightarrow> mixed \<Rightarrow> mixed \<Rightarrow> mixed
    \<Rightarrow> val + read_env \<times> read_vars" where
  "read clk stream receiver0 closable0 readSize0 =
     (case stream of
        NotStream m \<Rightarrow> Inl (TypeError ''Readable stream is required.'')
      | Stream ls buf \<Rightarrow>
          if \<not> is_function receiver0 then Inl (TypeError ''Invalid stream receiver.'')
          else Inr
            (\<lparr>now = clk, start = clk 0,
              receiver = (case wrap receiver0 of Some f \<Rightarrow> f | None \<Rightarrow> V Null),
              closable = truthy_arg closable0,
              readSize = positive readSize0\<rparr>,
             \<lparr>ticks = 1, trace = [], reads = 0, length_r = 0, index = 0, cbTime = 0,
              ready = False, waiting = False, stop = False,
              listeners = ls @ [(''readable'', OnReadable), (''end'', OnEnd),
                                (''close'', OnClose), (''error'', OnError)],
              buffer = buf, awaited = None, settled = None\<rparr>))"

text \<open>\<^verbatim>\<open>_read\<close>, the function the module exports.\<close>

definition read' :: "(nat \<Rightarrow> int) \<Rightarrow> stream_arg \<Rightarrow> mixed \<Rightarrow> arg \<Rightarrow> mixed
    \<Rightarrow> val + read_env \<times> read_vars" where
  "read' clk stream receiver0 closable0 readSize0 =
     (if is_options closable0
      then read clk stream receiver0 (member closable0 ''closable'') (member closable0 ''readSize'')
      else (case closable0 of
              Plain c \<Rightarrow> read clk stream receiver0 c readSize0
            | Options ps \<Rightarrow> read clk stream receiver0 (V Undefined) readSize0))"

section \<open>Notions used in the statements\<close>

text \<open>
  The argument list a callable gets from \<^verbatim>\<open>resolve\<close>:
  \<^verbatim>\<open>params ? value.apply(self, params) : value.call(self)\<close>.
\<close>

definition supplied :: "val list option \<Rightarrow> val list" where
  "supplied params = (case params of Some ps \<Rightarrow> ps | None \<Rightarrow> [])"

text \<open>What \<^verbatim>\<open>resolve\<close> does with a value once a promise had to be awaited for it.\<close>

definition behind_promise :: "resolution \<Rightarrow> resolution" where
  "behind_promise r = (case r of Success v d \<Rightarrow> Success v True | Failure x \<Rightarrow> Failure x | Stalled \<Rightarrow> Stalled)"

text \<open>
  Where a rejection of \<^verbatim>\<open>sequence\<close> comes from, read off the last call the driver made:
  the source failed (it threw, or its promise rejected) and the record is
  \<^verbatim>\<open>{index, error, source}\<close> with the data that had been passed to the source, or the
  destination failed and the record is \<^verbatim>\<open>{index, error, dest}\<close> with the data that had
  been passed to the destination.
\<close>

definition rejection_of :: "env \<Rightarrow> event \<Rightarrow> val \<Rightarrow> bool" where
  "rejection_of e ev r =
     (case ev of
        SourceCall i args \<Rightarrow>
          (\<exists>err. resolve (source e) (Some args) = Failure err \<and>
             r = Obj [(''index'', Num (int i)), (''error'', err), (''source'', args ! 1)] [] False)
      | DestCall i args \<Rightarrow>
          (\<exists>d err. dest e = Some d \<and>
             (call d args = Throw err \<or> call d args = Return (Promise (RejectWith err))) \<and>
             r = Obj [(''index'', Num (int i)), (''error'', err), (''dest'', args ! 1)] [] False)
      | _ \<Rightarrow> False)"

text \<open>The number of calls of the source in a trace.\<close>

fun is_pull :: "event \<Rightarrow> bool" where
  "is_pull (SourceCall i args) = True"
| "is_pull ev = False"

definition pulls :: "event list \<Rightarrow> nat" where
  "pulls tr = length (filter is_pull tr)"

text \<open>
  A source yields the values \<open>vs\<close>: called with index \<open>i\<close>, the value before (nothing at
  index 0) and whatever delay, it resolves with the \<open>i\<close>-th of them, none of them
  \<^verbatim>\<open>undefined\<close>. It finishes after them when it resolves with \<^verbatim>\<open>undefined\<close> at the next
  index.
\<close>

definition previous :: "val list \<Rightarrow> nat \<Rightarrow> val" where
  "previous vs i = (if i = 0 then Undefined else vs ! (i - 1))"

definition yields :: "mixed \<Rightarrow> val list \<Rightarrow> bool" where
  "yields src vs =
     (\<forall>i < length vs. \<forall>dl. \<exists>d.
        resolve src (Some [Num (int i), previous vs i, dl]) = Success (vs ! i) d \<and>
        vs ! i \<noteq> Undefined)"

definition finishes :: "mixed \<Rightarrow> val list \<Rightarrow> bool" where
  "finishes src vs =
     (\<forall>dl. \<exists>d. resolve src (Some [Num (int (length vs)), previous vs (length vs), dl])
        = Success Undefined d)"

text \<open>
  A destination accepts a value: there is none, or its call returns, and what it returns
  is not a promise that rejects or stays pending.
\<close>

definition accepted :: "mixed option \<Rightarrow> nat \<Rightarrow> val \<Rightarrow> bool" where
  "accepted dst i v =
     (case dst of
        None \<Rightarrow> True
      | Some f \<Rightarrow>
          (\<forall>dl. \<exists>r. call f [Num (int i), v, dl] = Return r \<and> r \<noteq> Promise Pending \<and>
             (\<forall>x. r \<noteq> Promise (RejectWith x))))"

definition accepts :: "mixed option \<Rightarrow> val list \<Rightarrow> bool" where
  "accepts dst vs = (\<forall>i < length vs. accepted dst i (vs ! i))"

text \<open>What \<^verbatim>\<open>finish\<close> resolves with, for the values \<open>res\<close> and the clock reading number \<open>t\<close>.\<close>

definition closing :: "env \<Rightarrow> nat \<Rightarrow> val list \<Rightarrow> nat \<Rightarrow> val" where
  "closing e idx res t =
     (if track e then Arr res [(''duration'', Num (now e t - start e))]
      else Obj [(''total'', Num (int idx)), (''duration'', Num (now e t - start e))] [] False)"

text \<open>
  Where a rejection of \<^verbatim>\<open>page\<close> comes from, read off the last call the driver made.
  After a call of the source: the source failed; or it resolved with something that is
  neither \<^verbatim>\<open>undefined\<close> nor an array; or it resolved with a page that \<^verbatim>\<open>batch\<close>
  rejected (the normal reject, \<^verbatim>\<open>{index, data}\<close>). After a call of the destination: the
  destination failed. \<^verbatim>\<open>fail\<close> has set \<^verbatim>\<open>index\<close> and attached \<^verbatim>\<open>getError\<close> to each.
\<close>

definition page_rejection_of :: "(val list \<Rightarrow> batched) \<Rightarrow> env \<Rightarrow> event \<Rightarrow> val \<Rightarrow> bool" where
  "page_rejection_of batch e ev r =
     (case ev of
        SourceCall i args \<Rightarrow>
          (\<exists>err. resolve (source e) (Some args) = Failure err \<and>
             r = Obj [(''error'', err), (''source'', args ! 1), (''index'', Num (int i))] [] True) \<or>
          (\<exists>v d. resolve (source e) (Some args) = Success v d \<and> v \<noteq> Undefined \<and>
             (\<forall>items hs. v \<noteq> Arr items hs) \<and>
             r = Obj [(''error'', Str ''Unexpected data returned from the source.''),
                      (''source'', args ! 1), (''index'', Num (int i))] [] True) \<or>
          (\<exists>items hs d err. resolve (source e) (Some args) = Success (Arr items hs) d \<and>
             batch items = BatchReject err \<and>
             r = Obj [(''data'', err), (''index'', Num (int i))] [] True)
      | DestCall i args \<Rightarrow>
          (\<exists>f err. dest e = Some f \<and>
             (call f args = Throw err \<or> call f args = Return (Promise (RejectWith err))) \<and>
             r = Obj [(''error'', err), (''dest'', args ! 1), (''index'', Num (int i))] [] True)
      | _ \<Rightarrow> False)"

text \<open>
  \<^verbatim>\<open>loop(idx)\<close> of \<^verbatim>\<open>page\<close> is entered with the variables \<open>s\<close>: at index 0 with the
  initial ones, and at the next index with those that an iteration ending in \<^verbatim>\<open>next()\<close>
  left, unless the limit is reached.
\<close>

inductive page_entered :: "(val list \<Rightarrow> batched) \<Rightarrow> env \<Rightarrow> nat \<Rightarrow> page_vars \<Rightarrow> bool"
  for batch :: "val list \<Rightarrow> batched" and e :: env
where
  first: "page_entered batch e 0 page_init"
| later: "page_entered batch e idx s \<Longrightarrow> page_turn batch e idx s = Next d s' \<Longrightarrow>
          limit e \<noteq> int (Suc idx) \<Longrightarrow> page_entered batch e (Suc idx) s'"

text \<open>The arguments of the call \<^verbatim>\<open>source(idx, request, srcDelay)\<close> made from \<open>s\<close>.\<close>

definition request_args :: "env \<Rightarrow> nat \<Rightarrow> page_vars \<Rightarrow> val list" where
  "request_args e idx s =
     [Num (int idx), request s,
      if idx \<noteq> 0 then Num (now e (ticks s) - srcTime s) else Undefined]"

text \<open>
  A source yields the pages whose batches resolve with \<open>ds\<close>: called with index \<open>i\<close>, the
  resolved page before (nothing at index 0) and whatever delay, it resolves with an array
  that \<^verbatim>\<open>batch\<close> resolves with the \<open>i\<close>-th of them.
\<close>

definition page_yields :: "(val list \<Rightarrow> batched) \<Rightarrow> mixed \<Rightarrow> val list list \<Rightarrow> bool" where
  "page_yields batch src ds =
     (\<forall>i < length ds. \<forall>dl. \<exists>items hs d.
        resolve src (Some [Num (int i), previous (map (\<lambda>d. Arr d []) ds) i, dl])
          = Success (Arr items hs) d \<and>
        batch items = BatchData (ds ! i))"

text \<open>
  \<open>prev\<close> is what \<^verbatim>\<open>batch\<close> resolved the page of the iteration before \<open>idx\<close> with, and
  \<^verbatim>\<open>undefined\<close> at index 0.
\<close>

definition page_before :: "(val list \<Rightarrow> batched) \<Rightarrow> env \<Rightarrow> nat \<Rightarrow> val \<Rightarrow> bool" where
  "page_before batch e idx prev =
     (if idx = 0 then prev = Undefined
      else (\<exists>s0 items hs d pd.
              page_entered batch e (idx - 1) s0 \<and>
              resolve (source e) (Some (request_args e (idx - 1) s0)) = Success (Arr items hs) d \<and>
              batch items = BatchData pd \<and> prev = Arr pd []))"

text \<open>What \<^verbatim>\<open>success\<close> of \<^verbatim>\<open>page\<close> resolves with after the pages \<open>ds\<close>.\<close>

definition page_closing :: "env \<Rightarrow> val list list \<Rightarrow> nat \<Rightarrow> val" where
  "page_closing e ds t =
     Obj [(''pages'', Num (int (length ds))), (''total'', Num (\<Sum>d\<leftarrow>ds. int (length d))),
          (''duration'', Num (now e t - start e))] [] False"

text \<open>
  The listeners that \<^verbatim>\<open>read\<close> adds, and what the trace of an invocation tells: the chunks
  read from the stream so far, and the number of calls of the receiver so far.
\<close>

definition ours :: "(string \<times> listener) list" where
  "ours = [(''readable'', OnReadable), (''end'', OnEnd), (''close'', OnClose), (''error'', OnError)]"

fun chunks_read :: "event list \<Rightarrow> val list" where
  "chunks_read [] = []"
| "chunks_read (StreamRead c # tr) = c # chunks_read tr"
| "chunks_read (ev # tr) = chunks_read tr"

fun receiver_calls :: "event list \<Rightarrow> nat" where
  "receiver_calls [] = 0"
| "receiver_calls (ReceiverCall i args # tr) = Suc (receiver_calls tr)"
| "receiver_calls (ev # tr) = receiver_calls tr"

text \<open>
  The listeners of somebody else on the stream, \<open>ls\<close>, stay as they are; those of this
  invocation are on the stream exactly as long as its promise is pending.
\<close>

definition foreign :: "(string \<times> listener) list \<Rightarrow> bool" where
  "foreign ls = (\<forall>p \<in> set ls. \<exists>k. snd p = Foreign k)"

definition attached :: "(string \<times> listener) list \<Rightarrow> read_vars \<Rightarrow> bool" where
  "attached ls s = (listeners s = (if settled s = None then ls @ ours else ls))"

text \<open>The counters agree with what has been done.\<close>

definition counted :: "read_vars \<Rightarrow> bool" where
  "counted s =
     (index s = receiver_calls (trace s) \<and>
      reads s = int (length (chunks_read (trace s))) \<and>
      length_r s = sum_list (map length_of (chunks_read (trace s))))"

text \<open>What \<^verbatim>\<open>success\<close> resolves with when it is called with the variables \<open>s\<close>.\<close>

definition summary :: "read_env \<Rightarrow> read_vars \<Rightarrow> val" where
  "summary e s =
     Obj [(''calls'', Num (int (receiver_calls (trace s)))),
          (''reads'', Num (int (length (chunks_read (trace s))))),
          (''length'', Num (sum_list (map length_of (chunks_read (trace s))))),
          (''duration'', Num (now e (ticks s) - start e))] [] False"

text \<open>
  From \<open>s\<close> to \<open>t\<close> the invocation keeps its books in order, and its promise is left as
  it was or is newly rejected.
\<close>

definition kept :: "(string \<times> listener) list \<Rightarrow> read_vars \<Rightarrow> read_vars \<Rightarrow> bool" where
  "kept ls s t =
     ((attached ls s \<and> counted s \<longrightarrow> attached ls t \<and> counted t) \<and>
      (settled t = settled s \<or> (settled s = None \<and> (\<exists>x. settled t = Some (Rejected x)))))"

section \<open>Example inputs\<close>

text \<open>A clock that advances by one millisecond from reading to reading.\<close>

definition ticking :: "nat \<Rightarrow> int" where
  "ticking k = int k"

text \<open>
  \<^verbatim>\<open>function () { return promise resolving with function () { return arguments } }\<close>:
  the callable behind the promise hands back the arguments it was called with.
\<close>

definition handing_back :: mixed where
  "handing_back = Fn (\<lambda>b. Return (V (Arr b [])))"

definition echo :: mixed where
  "echo = Fn (\<lambda>a. Return (Promise (Fulfil handing_back)))"

text \<open>\<^verbatim>\<open>function () { throw 'boom' }\<close>\<close>

definition thrower :: mixed where
  "thrower = Fn (\<lambda>args. Throw (Str ''boom''))"

text \<open>\<^verbatim>\<open>function (idx) { return idx }\<close>, a source without end.\<close>

definition counter :: mixed where
  "counter = Fn (\<lambda>args. Return (V (hd args)))"

text \<open>\<^verbatim>\<open>function () { return promise rejecting with 'no' }\<close>\<close>

definition refuser :: mixed where
  "refuser = Fn (\<lambda>args. Return (Promise (RejectWith (Str ''no''))))"

text \<open>\<^verbatim>\<open>function () { return promise resolving with undefined }\<close>\<close>

definition patient :: mixed where
  "patient = Fn (\<lambda>args. Return (Promise (Fulfil (V Undefined))))"

text \<open>\<^verbatim>\<open>function (idx) { if (idx < 3) return idx + 10 }\<close>: the values 10, 11, 12.\<close>

definition upto3 :: mixed where
  "upto3 = Fn (\<lambda>args. case args of
                 Num i # rest \<Rightarrow> if i < 3 then Return (V (Num (i + 10))) else Return (V Undefined)
               | _ \<Rightarrow> Return (V Undefined))"

text \<open>A \<^verbatim>\<open>batch\<close> whose items are plain values, and one that fails on \<^verbatim>\<open>null\<close> items.\<close>

definition resolving :: "val list \<Rightarrow> batched" where
  "resolving items = BatchData items"

definition strict :: "val list \<Rightarrow> batched" where
  "strict items =
     (if Null \<in> set items then BatchReject (BatchError [Str ''bad item'']) else BatchData items)"

text \<open>\<^verbatim>\<open>function (idx) { return idx < 1 ? [1, 2] : 5 }\<close> and \<^verbatim>\<open>function () { return [1, null] }\<close>\<close>

definition pager :: mixed where
  "pager = Fn (\<lambda>args. case args of
                 Num i # rest \<Rightarrow> if i < 1 then Return (V (Arr [Num 1, Num 2] [])) else Return (V (Num 5))
               | _ \<Rightarrow> Return (V (Num 5)))"

definition poisoned :: mixed where
  "poisoned = Fn (\<lambda>args. Return (V (Arr [Num 1, Null] [])))"

text \<open>\<^verbatim>\<open>function () { return [7] }\<close>, pages without end.\<close>

definition sevens :: mixed where
  "sevens = Fn (\<lambda>args. Return (V (Arr [Num 7] [])))"

text \<open>A stream with nothing buffered, and one with the chunks \<^verbatim>\<open>'ab'\<close> and \<^verbatim>\<open>'c'\<close> buffered.\<close>

definition drained :: reader where
  "drained = Reader (\<lambda>sz. Nothing)"

definition buffered :: reader where
  "buffered = Reader (\<lambda>sz. Chunk (Str ''ab'') (Reader (\<lambda>sz. Chunk (Str ''c'') drained)))"

text \<open>The listener that somebody else has put on the stream.\<close>

definition bystander :: "(string \<times> listener) list" where
  "bystander = [(''end'', Foreign 0)]"

text \<open>
  The invocation that \<^verbatim>\<open>read(stream, receiver)\<close> leaves behind on the stream with
  \<^verbatim>\<open>'ab'\<close> and \<^verbatim>\<open>'c'\<close> buffered, the listener of somebody else on it and the receiver
  \<open>patient\<close>, \<^verbatim>\<open>closable\<close> not set.
\<close>

definition listening_env :: read_env where
  "listening_env =
     \<lparr>now = ticking, start = 0, receiver = patient, closable = False, readSize = None\<rparr>"

definition listening :: read_vars where
  "listening =
     \<lparr>ticks = 1, trace = [], reads = 0, length_r = 0, index = 0, cbTime = 0,
      ready = False, waiting = False, stop = False, listeners = bystander @ ours,
      buffer = buffered, awaited = None, settled = None\<rparr>"

section \<open>The mixed-value resolver\<close>

lemma resolve_loop_invocations:
  "\<forall>d. \<forall>a \<in> set (snd (resolve_loop value params d)).
     a = (case params of Some ps \<Rightarrow> ps | None \<Rightarrow> [])"
  "\<forall>d. \<forall>a \<in> set (snd (resolve_call c params d)).
     a = (case params of Some ps \<Rightarrow> ps | None \<Rightarrow> [])"
  "\<forall>d. \<forall>a \<in> set (snd (resolve_then t params d)).
     a = (case params of Some ps \<Rightarrow> ps | None \<Rightarrow> [])"
  by (induction "value" and c and t) (auto simp: apsnd_def)

text \<open>Whether a promise was awaited before changes the flag of the success only.\<close>

lemma resolve_loop_delayed:
  "resolve_loop value params True =
     (behind_promise (fst (resolve_loop value params False)), snd (resolve_loop value params False))"
  "resolve_call c params True =
     (behind_promise (fst (resolve_call c params False)), snd (resolve_call c params False))"
  "resolve_then t params True =
     (behind_promise (fst (resolve_then t params False)), snd (resolve_then t params False))"
proof (induction "value" and c and t)
  case (Fulfil d)
  then show ?case by (simp add: behind_promise_def split: resolution.splits)
qed (simp_all add: behind_promise_def apsnd_def split_beta)

lemma resolve_Fn:
  "is_function c \<Longrightarrow> call c (supplied params) = Return m \<Longrightarrow>
   invocations c params = supplied params # invocations m params \<and>
   resolve c params = resolve m params"
  by (cases c) (simp_all add: invocations_def resolve_def supplied_def apsnd_def split_beta)

lemma resolve_Fn_throws:
  "is_function c \<Longrightarrow> call c (supplied params) = Throw x \<Longrightarrow>
   invocations c params = [supplied params] \<and> resolve c params = Failure x"
  by (cases c) (simp_all add: invocations_def resolve_def supplied_def apsnd_def)

lemma resolve_Promise:
  "invocations (Promise (Fulfil m)) params = invocations m params \<and>
   resolve (Promise (Fulfil m)) params = behind_promise (resolve m params)"
  by (simp add: invocations_def resolve_def resolve_loop_delayed(1))

text \<open>
  C3, as the code has it: \<^verbatim>\<open>params\<close> is never cleared, so every callable met while
  unwrapping, the first one and each later one (also one that a promise resolved with),
  is invoked with the supplied argument list; a callable is invoked with no arguments
  only when no argument list was supplied at all. In full: a callable \<open>c\<close> at the head of
  the unwrapping is invoked with the supplied list, and when it returns \<open>m\<close> the unwrapping
  goes on with \<open>m\<close> in the same way, so the calls are this one followed by those of \<open>m\<close>
  and the outcome is the one of \<open>m\<close>; when it throws, this call is the only one and the
  failure is what it threw; a promise fulfilled with \<open>m\<close> is followed by the unwrapping of
  \<open>m\<close> in the same way, with the same calls; a value that is neither ends the unwrapping
  with no call; and no call is made with anything but the supplied list.
\<close>

theorem resolve_applies_params_to_every_callable:
  "(is_function c \<and> call c (supplied params) = Return m \<longrightarrow>
      invocations c params = supplied params # invocations m params \<and>
      resolve c params = resolve m params) \<and>
   (is_function c' \<and> call c' (supplied params) = Throw x \<longrightarrow>
      invocations c' params = [supplied params] \<and> resolve c' params = Failure x) \<and>
   invocations (Promise (Fulfil m')) params = invocations m' params \<and>
   resolve (Promise (Fulfil m')) params = behind_promise (resolve m' params) \<and>
   invocations (V v) params = [] \<and> resolve (V v) params = Success v False \<and>
   set (invocations value params) \<subseteq> {supplied params} \<and>
   supplied (Some ps) = ps \<and> supplied None = []"
proof -
  have "set (invocations value params) \<subseteq> {supplied params}"
    using resolve_loop_invocations(1) [of "value" params]
    by (auto simp: invocations_def supplied_def)
  moreover have "invocations (V v) params = [] \<and> resolve (V v) params = Success v False"
    by (simp add: invocations_def resolve_def)
  ultimately show ?thesis
    using resolve_Fn [of c params m] resolve_Fn_throws [of c' params x]
      resolve_Promise [of m' params]
    by (simp add: supplied_def)
qed

theorem resolve_applies_params_to_every_callable_witness:
  "is_function echo \<and> call echo (supplied (Some [Num 1])) = Return (Promise (Fulfil handing_back)) \<and>
   invocations echo (Some [Num 1]) =
     supplied (Some [Num 1]) # invocations (Promise (Fulfil handing_back)) (Some [Num 1]) \<and>
   is_function thrower \<and> call thrower (supplied (Some [Num 1])) = Throw (Str ''boom'') \<and>
   invocations thrower (Some [Num 1]) = [supplied (Some [Num 1])] \<and>
   resolve thrower (Some [Num 1]) = Failure (Str ''boom'') \<and>
   invocations (Promise (Fulfil handing_back)) (Some [Num 1]) =
     invocations handing_back (Some [Num 1]) \<and>
   set (invocations echo (Some [Num 1])) \<subseteq> {supplied (Some [Num 1])}"
proof -
  have 1: "is_function echo \<and>
      call echo (supplied (Some [Num 1])) = Return (Promise (Fulfil handing_back))"
    by (simp add: echo_def supplied_def)
  have 2: "is_function thrower \<and> call thrower (supplied (Some [Num 1])) = Throw (Str ''boom'')"
    by (simp add: thrower_def)
  from 1 2 resolve_applies_params_to_every_callable
    [of echo "Some [Num 1]" "Promise (Fulfil handing_back)" thrower "Str ''boom''"
        handing_back Undefined echo "[Num 1]"]
  show ?thesis by blast
qed

text \<open>
  C3 as stated fails: with the argument list \<^verbatim>\<open>[1]\<close>, the second callable of \<open>echo\<close>,
  reached through a promise, is called with \<^verbatim>\<open>[1]\<close> again and not with no arguments.
\<close>

theorem resolve_later_callable_counterexample:
  "invocations echo (Some [Num 1]) = [[Num 1], [Num 1]] \<and>
   resolve echo (Some [Num 1]) = Success (Arr [Num 1] []) True"
  by (simp add: invocations_def resolve_def echo_def handing_back_def)

section \<open>The sequence driver\<close>

lemma sequence_finish_resolves: "fst (sequence_finish e idx s) \<noteq> Rejected r"
  by (simp add: sequence_finish_def Let_def)

lemma sequence_turn_rejects:
  "sequence_turn e idx s = Ends (Rejected r) s' \<Longrightarrow>
     trace s' \<noteq> [] \<and> rejection_of e (last (trace s')) r"
  unfolding sequence_turn_def Let_def
  by (auto simp: rejection_of_def sequence_finish_def Let_def
      split: resolution.splits if_splits option.splits completion.splits mixed.splits settlement.splits)

lemma sequence_loop_rejects:
  "sequence_loop n e idx s = Some (Rejected r, s') \<Longrightarrow>
     trace s' \<noteq> [] \<and> rejection_of e (last (trace s')) r"
proof (induction n arbitrary: idx s)
  case 0
  then show ?case by simp
next
  case (Suc n)
  show ?case
  proof (cases "sequence_turn e idx s")
    case (Ends out t)
    with Suc.prems have "sequence_turn e idx s = Ends (Rejected r) s'" by simp
    then show ?thesis by (rule sequence_turn_rejects)
  next
    case (Next d t)
    with Suc.prems have *: "sequence_next n e d idx t = Some (Rejected r, s')" by simp
    show ?thesis
    proof (cases "limit e = int (Suc idx)")
      case True
      with * have "fst (sequence_finish e (Suc idx) t) = Rejected r" by simp
      then show ?thesis by (simp add: sequence_finish_resolves)
    next
      case False
      with * have "sequence_loop n e (Suc idx) t = Some (Rejected r, s')" by simp
      then show ?thesis by (rule Suc.IH)
    qed
  qed
qed

lemma rejection_of_getError:
  "rejection_of e ev r \<Longrightarrow> getError r = Raised (TypeError ''getError is not a function'')"
  by (auto simp: rejection_of_def split: event.splits)

lemma thrower_run:
  "sequence ticking 1 thrower (V Undefined) (V Undefined) (V Undefined) =
     Some (Rejected (Obj [(''index'', Num 0), (''error'', Str ''boom''), (''source'', Undefined)] [] False),
           \<lparr>ticks = 2, trace = [SourceCall 0 [Num 0, Undefined, Undefined]], srcTime = 1, destTime = 0,
            data = Undefined, result = []\<rparr>)"
  by (simp add: sequence_def driver_env_def sequence_init_def sequence_turn_def thrower_def
      resolve_def ticking_def)

lemma refuser_run:
  "map_option fst (sequence ticking 1 counter refuser (V Undefined) (V Undefined)) =
     Some (Rejected (Obj [(''index'', Num 0), (''error'', Str ''no''), (''dest'', Num 0)] [] False))"
  by (simp add: sequence_def driver_env_def sequence_init_def sequence_turn_def counter_def refuser_def
      resolve_def ticking_def)

text \<open>
  C2, as the code has it: the record with which \<^verbatim>\<open>sequence\<close> rejects is the plain object
  \<^verbatim>\<open>{index, error, source}\<close> or \<^verbatim>\<open>{index, error, dest}\<close>; its \<^verbatim>\<open>error\<close> holds what the
  source or the destination threw or rejected with, its third property the data that had
  been passed in. No \<^verbatim>\<open>getError\<close> is attached to it (only \<^verbatim>\<open>page\<close> attaches one):
  calling it throws.
\<close>

theorem sequence_rejects_with_plain_record:
  assumes "sequence clk fuel source0 dest0 limit0 track0 = Some (Rejected r, s)"
  shows "trace s \<noteq> [] \<and>
         rejection_of (driver_env clk source0 dest0 limit0 track0) (last (trace s)) r \<and>
         getError r = Raised (TypeError ''getError is not a function'')"
proof -
  from assms have "sequence_loop fuel (driver_env clk source0 dest0 limit0 track0) 0 sequence_init
      = Some (Rejected r, s)"
    by (simp add: sequence_def split: if_splits)
  from sequence_loop_rejects [OF this] show ?thesis
    by (auto dest: rejection_of_getError)
qed

theorem sequence_rejects_with_plain_record_witness:
  "sequence ticking 1 thrower (V Undefined) (V Undefined) (V Undefined) =
     Some (Rejected (Obj [(''index'', Num 0), (''error'', Str ''boom''), (''source'', Undefined)] [] False),
           \<lparr>ticks = 2, trace = [SourceCall 0 [Num 0, Undefined, Undefined]], srcTime = 1, destTime = 0,
            data = Undefined, result = []\<rparr>) \<and>
   getError (Obj [(''index'', Num 0), (''error'', Str ''boom''), (''source'', Undefined)] [] False) =
     Raised (TypeError ''getError is not a function'')"
  using sequence_rejects_with_plain_record [OF thrower_run] thrower_run by simp


text \<open>
  C2 as stated fails: neither the record of a failing source nor the record of a failing
  destination has a \<^verbatim>\<open>getError()\<close> to call.
\<close>

theorem sequence_record_has_no_getError_counterexample:
  "map_option fst (sequence ticking 1 thrower (V Undefined) (V Undefined) (V Undefined)) =
     Some (Rejected (Obj [(''index'', Num 0), (''error'', Str ''boom''), (''source'', Undefined)]
                       [] False)) \<and>
   getError (Obj [(''index'', Num 0), (''error'', Str ''boom''), (''source'', Undefined)] [] False) =
     Raised (TypeError ''getError is not a function'') \<and>
   map_option fst (sequence ticking 1 counter refuser (V Undefined) (V Undefined)) =
     Some (Rejected (Obj [(''index'', Num 0), (''error'', Str ''no''), (''dest'', Num 0)] [] False)) \<and>
   getError (Obj [(''index'', Num 0), (''error'', Str ''no''), (''dest'', Num 0)] [] False) =
     Raised (TypeError ''getError is not a function'')"
  using thrower_run refuser_run by simp

lemma wrap_primitive: "primitive v \<Longrightarrow> wrap (V v) = None"
  by simp

lemma is_object_primitive: "primitive v \<Longrightarrow> \<not> is_object (V v)"
  by (cases v) simp_all

lemma sequence_turn_no_dest:
  "dest e = None \<Longrightarrow> sequence_turn e idx s = Ends out s' \<or> sequence_turn e idx s = Next d s' \<Longrightarrow>
   \<exists>args. set (trace s') = insert (SourceCall idx args) (set (trace s))"
  unfolding sequence_turn_def Let_def
  by (auto simp: sequence_finish_def Let_def split: resolution.splits if_splits)

lemma sequence_loop_no_dest:
  "dest e = None \<Longrightarrow> sequence_loop n e idx s = Some (out, s') \<Longrightarrow>
   \<forall>i a. DestCall i a \<notin> set (trace s) \<Longrightarrow> DestCall i a \<notin> set (trace s')"
proof (induction n arbitrary: idx s)
  case 0
  then show ?case by simp
next
  case (Suc n)
  show ?case
  proof (cases "sequence_turn e idx s")
    case (Ends o' t)
    with Suc.prems(2) have "t = s'" by simp
    with Ends sequence_turn_no_dest [OF Suc.prems(1), of idx s o' t] Suc.prems(3)
    show ?thesis by auto
  next
    case (Next d t)
    from Next sequence_turn_no_dest [OF Suc.prems(1), of idx s _ t d] Suc.prems(3)
    have t: "\<forall>i a. DestCall i a \<notin> set (trace t)" by auto
    from Next Suc.prems(2) have *: "sequence_next n e d idx t = Some (out, s')" by simp
    show ?thesis
    proof (cases "limit e = int (Suc idx)")
      case True
      with * have "s' = snd (sequence_finish e (Suc idx) t)" by auto
      with t show ?thesis by (simp add: sequence_finish_def Let_def)
    next
      case False
      with * have "sequence_loop n e (Suc idx) t = Some (out, s')" by simp
      from Suc.IH [OF Suc.prems(1) this t] show ?thesis .
    qed
  qed
qed

lemma sequence_turn_not_Thrown: "sequence_turn e idx s = Ends out s' \<Longrightarrow> out \<noteq> Thrown x"
  unfolding sequence_turn_def Let_def
  by (auto simp: sequence_finish_def Let_def
      split: resolution.splits if_splits option.splits completion.splits mixed.splits settlement.splits)

lemma sequence_loop_not_Thrown: "sequence_loop n e idx s = Some (out, s') \<Longrightarrow> out \<noteq> Thrown x"
proof (induction n arbitrary: idx s)
  case 0
  then show ?case by simp
next
  case (Suc n)
  show ?case
  proof (cases "sequence_turn e idx s")
    case (Ends o' t)
    with Suc.prems sequence_turn_not_Thrown [of e idx s o' t x] show ?thesis by simp
  next
    case (Next d t)
    with Suc.prems have *: "sequence_next n e d idx t = Some (out, s')" by simp
    show ?thesis
    proof (cases "limit e = int (Suc idx)")
      case True
      with * show ?thesis by (auto simp: sequence_finish_def Let_def split: if_splits)
    next
      case False
      with * have "sequence_loop n e (Suc idx) t = Some (out, s')" by simp
      then show ?thesis by (rule Suc.IH)
    qed
  qed
qed

text \<open>
  C10: a destination that is neither a function nor an object (a number, a string, a
  boolean, \<^verbatim>\<open>null\<close>) is normalised away by \<^verbatim>\<open>wrap\<close>; the call, through the exported
  function or directly, does what the call without a destination does, so it never calls
  a destination, and with a function as source it throws no validation error.
\<close>

theorem sequence_ignores_primitive_dest:
  assumes "primitive v"
  shows "wrap (V v) = None \<and>
         sequence clk fuel source0 (V v) limit0 track0 =
           sequence clk fuel source0 (V Undefined) limit0 track0 \<and>
         sequence' clk fuel source0 (Plain (V v)) limit0 track0 =
           sequence' clk fuel source0 (Plain (V Undefined)) limit0 track0 \<and>
         (\<forall>out s. sequence' clk fuel source0 (Plain (V v)) limit0 track0 = Some (out, s) \<longrightarrow>
            (\<forall>i a. DestCall i a \<notin> set (trace s)) \<and>
            (is_function source0 \<longrightarrow> (\<forall>x. out \<noteq> Thrown x)))"
proof -
  have w: "wrap (V v) = None" using assms by simp
  have o: "\<not> is_object (V v)" using assms by (rule is_object_primitive)
  have e: "driver_env clk source0 (V v) limit0 track0 = driver_env clk source0 (V Undefined) limit0 track0"
    using w by (simp add: driver_env_def)
  have d: "dest (driver_env clk source0 (V v) limit0 track0) = None"
    using w by (simp add: driver_env_def)
  have s: "sequence clk fuel source0 (V v) limit0 track0 =
           sequence clk fuel source0 (V Undefined) limit0 track0"
    using e by (simp add: sequence_def)
  have s': "sequence' clk fuel source0 (Plain (V v)) limit0 track0 =
           sequence clk fuel source0 (V v) limit0 track0"
    using o by (simp add: sequence'_def)
  have u: "sequence' clk fuel source0 (Plain (V Undefined)) limit0 track0 =
           sequence clk fuel source0 (V Undefined) limit0 track0"
    by (simp add: sequence'_def)
  have t: "\<forall>i a. DestCall i a \<notin> set (trace s) \<and> (is_function source0 \<longrightarrow> (\<forall>x. out \<noteq> Thrown x))"
    if r: "sequence clk fuel source0 (V v) limit0 track0 = Some (out, s)" for out s
  proof (cases "is_function source0")
    case False
    with r show ?thesis by (auto simp: sequence_def sequence_init_def)
  next
    case True
    with r have l: "sequence_loop fuel (driver_env clk source0 (V v) limit0 track0) 0 sequence_init
        = Some (out, s)"
      by (simp add: sequence_def)
    have "\<forall>i a. DestCall i a \<notin> set (trace s)"
      using sequence_loop_no_dest [OF d l] by (simp add: sequence_init_def)
    moreover have "out \<noteq> Thrown x" for x
      using sequence_loop_not_Thrown [OF l] .
    ultimately show ?thesis by simp
  qed
  show ?thesis using w s s' u t by simp
qed


theorem sequence_ignores_primitive_dest_witness:
  "primitive (Str ''x'') \<and>
   sequence' ticking 4 upto3 (Plain (V (Str ''x''))) (V Undefined) (V Undefined) =
   sequence' ticking 4 upto3 (Plain (V Undefined)) (V Undefined) (V Undefined)"
  using sequence_ignores_primitive_dest [of "Str ''x''" ticking 4 upto3 "V Undefined" "V Undefined"]
  by simp

lemma sequence_turn_Next:
  assumes r: "resolve (source e) (Some [Num (int idx), data s,
                if idx \<noteq> 0 then Num (now e (ticks s) - srcTime s) else Undefined]) = Success v d"
    and v: "v \<noteq> Undefined"
    and a: "accepted (dest e) idx v"
  shows "\<exists>d' s'. sequence_turn e idx s = Next d' s' \<and> data s' = v \<and>
           result s' = (if track e then result s @ [v] else result s) \<and>
           pulls (trace s') = Suc (pulls (trace s))"
proof (cases "dest e")
  case None
  with r v show ?thesis
    by (simp add: sequence_turn_def Let_def pulls_def)
next
  case (Some f)
  let ?dl = "if idx \<noteq> 0 then Num (now e (Suc (ticks s)) - destTime s) else Undefined"
  from a Some obtain ret where c: "call f [Num (int idx), v, ?dl] = Return ret"
    and p: "ret \<noteq> Promise Pending" "\<forall>x. ret \<noteq> Promise (RejectWith x)"
    unfolding accepted_def by (auto simp del: call.simps)
  show ?thesis
  proof (cases ret)
    case (Promise q)
    with p obtain x where "q = Fulfil x" by (cases q) auto
    with r v Some c Promise show ?thesis
      by (cases "idx = 0") (auto simp: sequence_turn_def Let_def pulls_def)
  qed (use r v Some c in \<open>cases "idx = 0"; auto simp: sequence_turn_def Let_def pulls_def\<close>)+
qed

lemma sequence_finish_closing:
  "sequence_finish e idx s =
     (Resolved (closing e idx (result s) (ticks s)), s\<lparr>ticks := Suc (ticks s)\<rparr>)"
  by (simp add: sequence_finish_def closing_def Let_def)

lemma sequence_turn_Undefined:
  assumes r: "resolve (source e) (Some [Num (int idx), data s,
                if idx \<noteq> 0 then Num (now e (ticks s) - srcTime s) else Undefined]) = Success Undefined d"
  shows "\<exists>s'. sequence_turn e idx s = Ends (Resolved (closing e idx (result s) (Suc (ticks s)))) s' \<and>
           ticks s' = Suc (Suc (ticks s)) \<and> pulls (trace s') = Suc (pulls (trace s))"
  using r by (simp add: sequence_turn_def sequence_finish_closing Let_def pulls_def)

lemma sequence_loop_unlimited:
  assumes src: "yields (source e) vs" and fin: "finishes (source e) vs"
    and dst: "accepts (dest e) vs" and lim: "limit e = 0"
  shows "k \<le> length vs \<Longrightarrow> data s = previous vs k \<Longrightarrow> (track e \<longrightarrow> result s = take k vs) \<Longrightarrow>
         length vs - k < n \<Longrightarrow>
         \<exists>s'. sequence_loop n e k s =
                 Some (Resolved (closing e (length vs) vs (ticks s' - 1)), s') \<and>
               0 < ticks s' \<and>
               pulls (trace s') = pulls (trace s) + (length vs - k) + 1"
proof (induction n arbitrary: k s)
  case 0
  then show ?case by simp
next
  case (Suc n)
  let ?dl = "if k \<noteq> 0 then Num (now e (ticks s) - srcTime s) else Undefined"
  show ?case
  proof (cases "k = length vs")
    case True
    from fin True Suc.prems(2) obtain d where
      "resolve (source e) (Some [Num (int k), data s, ?dl]) = Success Undefined d"
      unfolding finishes_def by metis
    from sequence_turn_Undefined [OF this] obtain s' where
      t: "sequence_turn e k s = Ends (Resolved (closing e k (result s) (Suc (ticks s)))) s'"
      and s': "ticks s' = Suc (Suc (ticks s))" "pulls (trace s') = Suc (pulls (trace s))"
      by blast
    have "closing e k (result s) (Suc (ticks s)) = closing e (length vs) vs (ticks s' - 1)"
      using True Suc.prems(3) s' by (simp add: closing_def)
    with t s' True show ?thesis by simp
  next
    case False
    with Suc.prems have k: "k < length vs" by simp
    from src k Suc.prems(2) obtain d where
      r: "resolve (source e) (Some [Num (int k), data s, ?dl]) = Success (vs ! k) d"
      and v: "vs ! k \<noteq> Undefined"
      unfolding yields_def by metis
    from dst k have a: "accepted (dest e) k (vs ! k)" by (simp add: accepts_def)
    from sequence_turn_Next [OF r v a] obtain d' t where
      t: "sequence_turn e k s = Next d' t" and dt: "data t = vs ! k"
      and rt: "result t = (if track e then result s @ [vs ! k] else result s)"
      and pt: "pulls (trace t) = Suc (pulls (trace s))"
      by blast
    have 1: "Suc k \<le> length vs" using k by simp
    have 2: "data t = previous vs (Suc k)" using dt by (simp add: previous_def)
    have 3: "track e \<longrightarrow> result t = take (Suc k) vs"
      using rt Suc.prems(3) k by (simp add: take_Suc_conv_app_nth)
    have 4: "length vs - Suc k < n" using Suc.prems(4) k by simp
    from Suc.IH [OF 1 2 3 4] obtain s' where
      "sequence_loop n e (Suc k) t = Some (Resolved (closing e (length vs) vs (ticks s' - 1)), s')"
      "0 < ticks s'" "pulls (trace s') = pulls (trace t) + (length vs - Suc k) + 1"
      by blast
    with t pt k lim show ?thesis by simp
  qed
qed

lemma sequence_loop_limited:
  assumes src: "yields (source e) vs" and dst: "accepts (dest e) vs"
    and lim: "limit e = int (length vs)"
  shows "k < length vs \<Longrightarrow> data s = previous vs k \<Longrightarrow> (track e \<longrightarrow> result s = take k vs) \<Longrightarrow>
         length vs - k \<le> n \<Longrightarrow>
         \<exists>s'. sequence_loop n e k s =
                 Some (Resolved (closing e (length vs) vs (ticks s' - 1)), s') \<and>
               0 < ticks s' \<and>
               pulls (trace s') = pulls (trace s) + (length vs - k)"
proof (induction n arbitrary: k s)
  case 0
  then show ?case by simp
next
  case (Suc n)
  let ?dl = "if k \<noteq> 0 then Num (now e (ticks s) - srcTime s) else Undefined"
  have k: "k < length vs" by fact
  from src k Suc.prems(2) obtain d where
    r: "resolve (source e) (Some [Num (int k), data s, ?dl]) = Success (vs ! k) d"
    and v: "vs ! k \<noteq> Undefined"
    unfolding yields_def by metis
  from dst k have a: "accepted (dest e) k (vs ! k)" by (simp add: accepts_def)
  from sequence_turn_Next [OF r v a] obtain d' t where
    t: "sequence_turn e k s = Next d' t" and dt: "data t = vs ! k"
    and rt: "result t = (if track e then result s @ [vs ! k] else result s)"
    and pt: "pulls (trace t) = Suc (pulls (trace s))"
    by blast
  have 3: "track e \<longrightarrow> result t = take (Suc k) vs"
    using rt Suc.prems(3) k by (simp add: take_Suc_conv_app_nth)
  show ?case
  proof (cases "Suc k = length vs")
    case True
    then have "limit e = int (Suc k)" using lim by simp
    moreover have "closing e (Suc k) (result t) (ticks t) = closing e (length vs) vs (ticks t)"
      using True 3 by (simp add: closing_def)
    ultimately show ?thesis using t pt True
      by (simp add: sequence_finish_closing)
  next
    case False
    have 1: "Suc k < length vs" using k False by simp
    have 2: "data t = previous vs (Suc k)" using dt by (simp add: previous_def)
    have 4: "length vs - Suc k \<le> n" using Suc.prems(4) k by simp
    from Suc.IH [OF 1 2 3 4] obtain s' where
      "sequence_loop n e (Suc k) t = Some (Resolved (closing e (length vs) vs (ticks s' - 1)), s')"
      "0 < ticks s'" "pulls (trace s') = pulls (trace t) + (length vs - Suc k)"
      by blast
    moreover have "limit e \<noteq> int (Suc k)" using lim False by simp
    ultimately show ?thesis using t pt k by simp
  qed
qed

lemma resolve_wrap:
  "is_function m \<Longrightarrow> resolve (case wrap m of Some f \<Rightarrow> f | None \<Rightarrow> V Null) ps = resolve m ps"
  by (cases m) (simp_all add: resolve_def asyncAdapter_def)

lemma yields_wrap:
  "is_function m \<Longrightarrow> yields (case wrap m of Some f \<Rightarrow> f | None \<Rightarrow> V Null) vs = yields m vs"
  by (simp add: yields_def resolve_wrap)

lemma finishes_wrap:
  "is_function m \<Longrightarrow> finishes (case wrap m of Some f \<Rightarrow> f | None \<Rightarrow> V Null) vs = finishes m vs"
  by (simp add: finishes_def resolve_wrap)

lemma upto3_yields: "yields upto3 [Num 10, Num 11, Num 12]"
  by (auto simp: yields_def upto3_def resolve_def previous_def less_Suc_eq numeral_3_eq_3)

lemma upto3_finishes: "finishes upto3 [Num 10, Num 11, Num 12]"
  by (auto simp: finishes_def upto3_def resolve_def previous_def)

lemma upto3_function: "is_function upto3"
  by (simp add: upto3_def)

lemma patient_accepts: "accepts (wrap patient) vs"
  by (simp add: accepts_def accepted_def patient_def)

text \<open>
  C1, as the code has it: the claim holds for a destination that does not fail. For a
  source that yields \<open>N\<close> values, none of them \<^verbatim>\<open>undefined\<close>, and then \<^verbatim>\<open>undefined\<close>,
  with no limit set, and with no destination or one that accepts each of the values,
  \<^verbatim>\<open>sequence\<close> returns (\<open>N\<close> + 1 iterations are enough) and resolves: with
  \<^verbatim>\<open>{total: N, duration}\<close> when \<^verbatim>\<open>track\<close> is not set, and with the array of the \<open>N\<close>
  values in the order they were produced, \<^verbatim>\<open>duration\<close> being a non-enumerable property of
  the array, when \<^verbatim>\<open>track\<close> is set. The source has then been called \<open>N\<close> + 1 times.
\<close>

theorem sequence_resolves_when_source_ends:
  assumes f: "is_function source0"
    and y: "yields source0 vs" and u: "finishes source0 vs"
    and a: "accepts (wrap dest0) vs"
    and l: "positive limit0 = None"
    and n: "length vs < fuel"
  shows "\<exists>s. sequence clk fuel source0 dest0 limit0 track0 =
           Some (Resolved
                   (if truthy_arg track0
                    then Arr vs [(''duration'', Num (clk (ticks s - 1) - clk 0))]
                    else Obj [(''total'', Num (int (length vs))),
                              (''duration'', Num (clk (ticks s - 1) - clk 0))] [] False), s) \<and>
           pulls (trace s) = length vs + 1"
proof -
  let ?e = "driver_env clk source0 dest0 limit0 track0"
  have 1: "yields (source ?e) vs" using f y by (simp add: driver_env_def yields_wrap)
  have 2: "finishes (source ?e) vs" using f u by (simp add: driver_env_def finishes_wrap)
  have 3: "accepts (dest ?e) vs" using a by (simp add: driver_env_def)
  have 4: "limit ?e = 0" using l by (simp add: driver_env_def)
  from sequence_loop_unlimited [OF 1 2 3 4, of 0 sequence_init fuel] n
  obtain s where "sequence_loop fuel ?e 0 sequence_init =
      Some (Resolved (closing ?e (length vs) vs (ticks s - 1)), s)"
    "pulls (trace s) = pulls (trace sequence_init) + (length vs - 0) + 1"
    by (auto simp: previous_def sequence_init_def)
  then show ?thesis using f
    by (auto simp: sequence_def closing_def driver_env_def sequence_init_def pulls_def)
qed

theorem sequence_resolves_when_source_ends_witness:
  "is_function upto3 \<and> yields upto3 [Num 10, Num 11, Num 12] \<and>
   finishes upto3 [Num 10, Num 11, Num 12] \<and> accepts (wrap patient) [Num 10, Num 11, Num 12] \<and>
   positive (V Undefined) = None \<and> length [Num 10, Num 11, Num 12] < (4::nat) \<and>
   (\<exists>s. sequence ticking 4 upto3 patient (V Undefined) (V (Bool True)) =
           Some (Resolved (Arr [Num 10, Num 11, Num 12]
                   [(''duration'', Num (ticking (ticks s - 1) - ticking 0))]), s) \<and>
         pulls (trace s) = length [Num 10, Num 11, Num 12] + 1)"
  using sequence_resolves_when_source_ends [of upto3 "[Num 10, Num 11, Num 12]" patient "V Undefined" 4
      ticking "V (Bool True)"]
    upto3_yields upto3_finishes patient_accepts upto3_function
  by simp

text \<open>
  C1 as stated fails: the source yields three values and then \<^verbatim>\<open>undefined\<close>, no limit is
  set, and \<^verbatim>\<open>sequence\<close> rejects, because the destination throws on the first value.
\<close>

theorem sequence_failing_dest_counterexample:
  "is_function upto3 \<and> yields upto3 [Num 10, Num 11, Num 12] \<and>
   finishes upto3 [Num 10, Num 11, Num 12] \<and>
   map_option fst (sequence ticking 4 upto3 thrower (V (Num 0)) (V (Bool False))) =
     Some (Rejected (Obj [(''index'', Num 0), (''error'', Str ''boom''), (''dest'', Num 10)] [] False))"
  using upto3_yields upto3_finishes upto3_function
  by (simp add: sequence_def driver_env_def sequence_init_def sequence_turn_def upto3_def thrower_def
      resolve_def ticking_def eval_nat_numeral)

section \<open>The page driver\<close>

lemma page_turn_rejects:
  "page_turn batch e idx s = Ends (Rejected r) s' \<Longrightarrow>
     trace s' \<noteq> [] \<and> page_rejection_of batch e (last (trace s')) r"
  unfolding page_turn_def Let_def
  by (auto simp: page_rejection_of_def page_success_def page_fail_def
      split: resolution.splits if_splits option.splits completion.splits mixed.splits
        settlement.splits val.splits batched.splits)

lemma page_loop_rejects:
  "page_loop n batch e idx s = Some (Rejected r, s') \<Longrightarrow>
     trace s' \<noteq> [] \<and> page_rejection_of batch e (last (trace s')) r"
proof (induction n arbitrary: idx s)
  case 0
  then show ?case by simp
next
  case (Suc n)
  show ?case
  proof (cases "page_turn batch e idx s")
    case (Ends out t)
    with Suc.prems have "page_turn batch e idx s = Ends (Rejected r) s'" by simp
    then show ?thesis by (rule page_turn_rejects)
  next
    case (Next d t)
    with Suc.prems have *: "page_next n batch e idx t = Some (Rejected r, s')" by simp
    show ?thesis
    proof (cases "limit e = int (Suc idx)")
      case True
      with * show ?thesis by (simp add: page_success_def)
    next
      case False
      with * have "page_loop n batch e (Suc idx) t = Some (Rejected r, s')" by simp
      then show ?thesis by (rule Suc.IH)
    qed
  qed
qed

lemma page_rejection_getError:
  assumes "page_rejection_of batch e ev r"
  shows "(if has ''data'' r
          then getError r = (case getErrors (get r ''data'') of
                               Value errors \<Rightarrow> Value (first errors)
                             | Raised x \<Rightarrow> Raised x)
          else getError r = Value (get r ''error''))"
  using assms
  by (auto simp: page_rejection_of_def getError_closure_def has_def get_def split: event.splits)

lemma poisoned_run:
  "page strict ticking 1 poisoned (V Undefined) (V Undefined) =
     Some (Rejected (Obj [(''data'', BatchError [Str ''bad item'']), (''index'', Num 0)] [] True),
           \<lparr>ticks = 2, trace = [SourceCall 0 [Num 0, Undefined, Undefined]], srcTime = 1,
            destTime = 0, request = Undefined, total = 0\<rparr>)"
  by (simp add: page_def driver_env_def page_init_def page_turn_def poisoned_def strict_def
      resolve_def ticking_def page_fail_def)

text \<open>
  C7: whatever \<^verbatim>\<open>page\<close> rejects with has \<^verbatim>\<open>getError()\<close>. On a normal reject (the record
  has \<^verbatim>\<open>data\<close>, what \<^verbatim>\<open>batch\<close> rejected the page with) it returns the first element of
  \<^verbatim>\<open>data.getErrors()\<close>, the first individual error; on an internal reject (the source or
  the destination failed, or the source resolved with unexpected data) it returns the
  \<^verbatim>\<open>error\<close> of the record.
\<close>

theorem page_getError_returns:
  assumes "page batch clk fuel source0 dest0 limit0 = Some (Rejected r, s)"
  shows "trace s \<noteq> [] \<and>
         page_rejection_of batch (driver_env clk source0 dest0 limit0 (V Undefined)) (last (trace s)) r \<and>
         (if has ''data'' r
          then getError r = (case getErrors (get r ''data'') of
                               Value errors \<Rightarrow> Value (first errors)
                             | Raised x \<Rightarrow> Raised x)
          else getError r = Value (get r ''error'')) \<and>
         (\<forall>x xs. get r ''data'' = BatchError (x # xs) \<longrightarrow> getError r = Value x)"
proof -
  let ?e = "driver_env clk source0 dest0 limit0 (V Undefined)"
  from assms have "page_loop fuel batch ?e 0 page_init = Some (Rejected r, s)"
    by (simp add: page_def split: if_splits)
  from page_loop_rejects [OF this] have t: "trace s \<noteq> []"
    and p: "page_rejection_of batch ?e (last (trace s)) r" by simp_all
  note g = page_rejection_getError [OF p]
  have "getError r = Value x" if "get r ''data'' = BatchError (x # xs)" for x xs
  proof -
    from that have "has ''data'' r" by (auto simp: get_def has_def split: option.splits)
    with g that show ?thesis by simp
  qed
  then have h: "\<forall>x xs. get r ''data'' = BatchError (x # xs) \<longrightarrow> getError r = Value x"
    by simp
  from t p g h show ?thesis by simp
qed

theorem page_getError_returns_witness:
  "page strict ticking 1 poisoned (V Undefined) (V Undefined) =
     Some (Rejected (Obj [(''data'', BatchError [Str ''bad item'']), (''index'', Num 0)] [] True),
           \<lparr>ticks = 2, trace = [SourceCall 0 [Num 0, Undefined, Undefined]], srcTime = 1,
            destTime = 0, request = Undefined, total = 0\<rparr>) \<and>
   getError (Obj [(''data'', BatchError [Str ''bad item'']), (''index'', Num 0)] [] True) =
     Value (Str ''bad item'')"
  using page_getError_returns [OF poisoned_run] poisoned_run by (simp add: get_def)

lemma page_turn_NextD:
  assumes t: "page_turn batch e idx s = Next d s'"
  shows "\<exists>items hs dl pd. resolve (source e) (Some (request_args e idx s)) = Success (Arr items hs) dl \<and>
      batch items = BatchData pd \<and> request s' = Arr pd [] \<and>
      total s' = total s + int (length pd) \<and> pulls (trace s') = Suc (pulls (trace s))"
proof (cases "resolve (source e) (Some (request_args e idx s))")
  case (Success v dl)
  show ?thesis
  proof (cases v)
    case (Arr items hs)
    show ?thesis
    proof (cases "batch items")
      case (BatchData pd)
      show ?thesis
      proof (cases "dest e")
        case None
        with t Success Arr BatchData show ?thesis
          by (auto simp: page_turn_def Let_def request_args_def pulls_def)
      next
        case (Some f)
        let ?args = "[Num (int idx), Arr pd [],
          if idx \<noteq> 0 then Num (now e (Suc (ticks s)) - destTime s) else Undefined]"
        show ?thesis
        proof (cases "call f ?args")
          case (Return ret)
          show ?thesis
          proof (cases ret)
            case (Promise p)
            with t Success Arr BatchData Some Return show ?thesis
              by (cases p) (auto simp: page_turn_def Let_def request_args_def pulls_def page_fail_def cong: if_cong)
          qed (use t Success Arr BatchData Some Return in
               \<open>auto simp: page_turn_def Let_def request_args_def pulls_def cong: if_cong\<close>)
        next
          case (Throw err)
          with t Success Arr BatchData Some show ?thesis
            by (auto simp: page_turn_def Let_def request_args_def page_fail_def cong: if_cong)
        qed
      qed
    qed (use t Success Arr in \<open>auto simp: page_turn_def Let_def request_args_def page_fail_def\<close>)
  qed (use t Success in
       \<open>auto simp: page_turn_def Let_def request_args_def page_fail_def page_success_def\<close>)
qed (use t in \<open>auto simp: page_turn_def Let_def request_args_def page_fail_def\<close>)

lemma page_turn_unexpected:
  assumes "resolve (source e) (Some (request_args e idx s)) = Success v d"
    and "v \<noteq> Undefined" and "\<forall>items hs. v \<noteq> Arr items hs"
  shows "page_turn batch e idx s =
           Ends (Rejected (Obj [(''error'', Str ''Unexpected data returned from the source.''),
                                (''source'', request s), (''index'', Num (int idx))] [] True))
                (s\<lparr>ticks := Suc (ticks s), srcTime := now e (ticks s),
                   trace := trace s @ [SourceCall idx (request_args e idx s)]\<rparr>)"
  using assms unfolding page_turn_def Let_def request_args_def
  by (cases v) (auto simp: page_fail_def)

lemma page_entered_pulls: "page_entered batch e idx s \<Longrightarrow> pulls (trace s) = idx"
proof (induction rule: page_entered.induct)
  case first
  show ?case by (simp add: page_init_def pulls_def)
next
  case (later idx s d s')
  from page_turn_NextD [OF later.hyps(2)] later.IH show ?case by auto
qed

lemma page_entered_loop:
  "page_entered batch e idx s \<Longrightarrow>
   page_loop (idx + m) batch e 0 page_init = page_loop m batch e idx s"
proof (induction arbitrary: m rule: page_entered.induct)
  case first
  show ?case by simp
next
  case (later idx s d s')
  from later.IH [of "Suc m"] later.hyps(2,3) show ?case by simp
qed

lemma page_entered_before:
  "page_entered batch e idx s \<Longrightarrow> page_before batch e idx (request s)"
proof (induction rule: page_entered.induct)
  case first
  show ?case by (simp add: page_before_def page_init_def)
next
  case (later idx s d s')
  from page_turn_NextD [OF later.hyps(2)] obtain items hs dl pd where
    "resolve (source e) (Some (request_args e idx s)) = Success (Arr items hs) dl"
    "batch items = BatchData pd" "request s' = Arr pd []"
    by blast
  with later.hyps(1) have "\<exists>s0 items hs d pd.
      page_entered batch e idx s0 \<and>
      resolve (source e) (Some (request_args e idx s0)) = Success (Arr items hs) d \<and>
      batch items = BatchData pd \<and> request s' = Arr pd []"
    by blast
  then show ?case by (simp add: page_before_def)
qed

text \<open>
  C6: when \<^verbatim>\<open>loop(idx)\<close> has been entered and the source resolves there with a value that
  is neither \<^verbatim>\<open>undefined\<close> nor an array, \<^verbatim>\<open>page\<close> returns (\<open>idx\<close> + 1 iterations are
  enough) and rejects with \<^verbatim>\<open>{error: "Unexpected data returned from the source.", source,
  index: idx}\<close>, where \<^verbatim>\<open>source\<close> is what \<^verbatim>\<open>batch\<close> resolved the page before with, and
  \<^verbatim>\<open>undefined\<close> at index 0. That call of the source is the last thing the driver does: it
  is call number \<open>idx\<close> + 1 of the source and the trace ends with it.
\<close>

theorem page_rejects_unexpected_data:
  assumes f: "is_function source0"
    and e: "e = driver_env clk source0 dest0 limit0 (V Undefined)"
    and r: "page_entered batch e idx s"
    and v: "resolve source0 (Some (request_args e idx s)) = Success v d"
      "v \<noteq> Undefined" "\<forall>items hs. v \<noteq> Arr items hs"
    and n: "idx < fuel"
  shows "\<exists>s'. page batch clk fuel source0 dest0 limit0 =
           Some (Rejected (Obj [(''error'', Str ''Unexpected data returned from the source.''),
                                (''source'', request s), (''index'', Num (int idx))] [] True), s') \<and>
           trace s' = trace s @ [SourceCall idx (request_args e idx s)] \<and>
           pulls (trace s') = idx + 1 \<and>
           page_before batch e idx (request s)"
proof -
  from n obtain m where "fuel = Suc (idx + m)" using less_imp_Suc_add by blast
  then have m: "fuel = idx + Suc m" by simp
  let ?s' = "s\<lparr>ticks := Suc (ticks s), srcTime := now e (ticks s),
                trace := trace s @ [SourceCall idx (request_args e idx s)]\<rparr>"
  let ?r = "Obj [(''error'', Str ''Unexpected data returned from the source.''),
                 (''source'', request s), (''index'', Num (int idx))] [] True"
  have se: "source e = (case wrap source0 of Some f \<Rightarrow> f | None \<Rightarrow> V Null)"
    unfolding e by (simp add: driver_env_def)
  have "resolve (source e) (Some (request_args e idx s)) = Success v d"
    by (simp only: se resolve_wrap [OF f] v(1))
  from page_turn_unexpected [OF this v(2,3), of batch]
  have t: "page_loop (Suc m) batch e idx s = Some (Rejected ?r, ?s')"
    by simp
  have "page batch clk fuel source0 dest0 limit0 = page_loop fuel batch e 0 page_init"
    using f e by (simp add: page_def)
  also have "\<dots> = page_loop (Suc m) batch e idx s"
    unfolding m by (rule page_entered_loop [OF r])
  finally have p: "page batch clk fuel source0 dest0 limit0 = Some (Rejected ?r, ?s')"
    using t by simp
  have "pulls (trace ?s') = idx + 1"
    using page_entered_pulls [OF r] by (simp add: pulls_def)
  with p page_entered_before [OF r] show ?thesis
    by (intro exI [of _ ?s']) simp
qed

lemma pager_turn:
  "page_turn resolving (driver_env ticking pager (V Undefined) (V Undefined) (V Undefined)) 0 page_init =
     Next False \<lparr>ticks = 2, trace = [SourceCall 0 [Num 0, Undefined, Undefined]], srcTime = 1,
                 destTime = 0, request = Arr [Num 1, Num 2] [], total = 2\<rparr>"
  by (simp add: page_turn_def driver_env_def page_init_def pager_def resolving_def resolve_def
      ticking_def asyncAdapter_def)

lemma pager_entered:
  "page_entered resolving (driver_env ticking pager (V Undefined) (V Undefined) (V Undefined)) (Suc 0)
     \<lparr>ticks = 2, trace = [SourceCall 0 [Num 0, Undefined, Undefined]], srcTime = 1,
      destTime = 0, request = Arr [Num 1, Num 2] [], total = 2\<rparr>"
  using page_entered.later [OF page_entered.first pager_turn] by (simp add: driver_env_def)

lemma pager_unexpected:
  "resolve pager (Some (request_args (driver_env ticking pager (V Undefined) (V Undefined) (V Undefined))
     (Suc 0) \<lparr>ticks = 2, trace = [SourceCall 0 [Num 0, Undefined, Undefined]], srcTime = 1,
      destTime = 0, request = Arr [Num 1, Num 2] [], total = 2\<rparr>)) = Success (Num 5) False"
  by (simp add: request_args_def pager_def resolve_def)

lemma pager_function: "is_function pager"
  by (simp add: pager_def)

theorem page_rejects_unexpected_data_witness:
  "is_function pager \<and>
   page_entered resolving (driver_env ticking pager (V Undefined) (V Undefined) (V Undefined)) (Suc 0)
     \<lparr>ticks = 2, trace = [SourceCall 0 [Num 0, Undefined, Undefined]], srcTime = 1,
      destTime = 0, request = Arr [Num 1, Num 2] [], total = 2\<rparr> \<and>
   Num 5 \<noteq> Undefined \<and> (\<forall>items hs. Num 5 \<noteq> Arr items hs) \<and> Suc 0 < 2 \<and>
   (\<exists>s'. page resolving ticking 2 pager (V Undefined) (V Undefined) =
      Some (Rejected (Obj [(''error'', Str ''Unexpected data returned from the source.''),
                           (''source'', Arr [Num 1, Num 2] []), (''index'', Num 1)] [] True), s'))"
  using page_rejects_unexpected_data [where fuel = 2, OF pager_function refl pager_entered
      pager_unexpected]
    pager_function pager_entered
  by auto

lemma page_turn_Next:
  assumes r: "resolve (source e) (Some (request_args e idx s)) = Success (Arr items hs) d"
    and b: "batch items = BatchData pd"
    and a: "accepted (dest e) idx (Arr pd [])"
  shows "\<exists>s'. page_turn batch e idx s = Next False s' \<and> request s' = Arr pd [] \<and>
           total s' = total s + int (length pd) \<and>
           pulls (trace s') = Suc (pulls (trace s))"
proof (cases "dest e")
  case None
  with r b show ?thesis
    by (auto simp: page_turn_def Let_def pulls_def request_args_def)
next
  case (Some f)
  let ?dl = "if idx \<noteq> 0 then Num (now e (Suc (ticks s)) - destTime s) else Undefined"
  from a Some obtain ret where c: "call f [Num (int idx), Arr pd [], ?dl] = Return ret"
    and p: "ret \<noteq> Promise Pending" "\<forall>x. ret \<noteq> Promise (RejectWith x)"
    unfolding accepted_def by (auto simp del: call.simps)
  show ?thesis
  proof (cases ret)
    case (Promise q)
    with p obtain x where "q = Fulfil x" by (cases q) auto
    with r b Some c Promise show ?thesis
      by (auto simp: page_turn_def Let_def pulls_def request_args_def cong: if_cong)
  qed (use r b Some c in \<open>auto simp: page_turn_def Let_def pulls_def request_args_def cong: if_cong\<close>)
qed

lemma page_loop_limited:
  assumes src: "page_yields batch (source e) ds"
    and dst: "accepts (dest e) (map (\<lambda>d. Arr d []) ds)"
    and lim: "limit e = int (length ds)"
  shows "k < length ds \<Longrightarrow> request s = previous (map (\<lambda>d. Arr d []) ds) k \<Longrightarrow>
         total s = (\<Sum>d\<leftarrow>take k ds. int (length d)) \<Longrightarrow>
         length ds - k \<le> n \<Longrightarrow>
         \<exists>s'. page_loop n batch e k s = Some (Resolved (page_closing e ds (ticks s' - 1)), s') \<and>
               0 < ticks s' \<and>
               pulls (trace s') = pulls (trace s) + (length ds - k)"
proof (induction n arbitrary: k s)
  case 0
  then show ?case by simp
next
  case (Suc n)
  have k: "k < length ds" by fact
  from src k Suc.prems(2) obtain items hs d where
    r: "resolve (source e) (Some (request_args e k s)) = Success (Arr items hs) d"
    and b: "batch items = BatchData (ds ! k)"
    unfolding page_yields_def request_args_def by metis
  from dst k have a: "accepted (dest e) k (Arr (ds ! k) [])" by (simp add: accepts_def)
  from page_turn_Next [where batch = batch, OF r b a] obtain t where
    t: "page_turn batch e k s = Next False t" and qt: "request t = Arr (ds ! k) []"
    and tt: "total t = total s + int (length (ds ! k))"
    and pt: "pulls (trace t) = Suc (pulls (trace s))"
    by blast
  have 3: "total t = (\<Sum>d\<leftarrow>take (Suc k) ds. int (length d))"
    using tt Suc.prems(3) k by (simp add: take_Suc_conv_app_nth)
  show ?case
  proof (cases "Suc k = length ds")
    case True
    then have "limit e = int (Suc k)" using lim by simp
    moreover have "total t = (\<Sum>d\<leftarrow>ds. int (length d))" using 3 True by simp
    ultimately show ?thesis using t pt True
      by (simp add: page_success_def page_closing_def)
  next
    case False
    have 1: "Suc k < length ds" using k False by simp
    have 2: "request t = previous (map (\<lambda>d. Arr d []) ds) (Suc k)"
      using qt k by (simp add: previous_def)
    have 4: "length ds - Suc k \<le> n" using Suc.prems(4) k by simp
    from Suc.IH [OF 1 2 3 4] obtain s' where
      "page_loop n batch e (Suc k) t = Some (Resolved (page_closing e ds (ticks s' - 1)), s')"
      "0 < ticks s'" "pulls (trace s') = pulls (trace t) + (length ds - Suc k)"
      by blast
    moreover have "limit e \<noteq> int (Suc k)" using lim False by simp
    ultimately show ?thesis using t pt k by simp
  qed
qed

lemma page_yields_wrap:
  "is_function m \<Longrightarrow>
   page_yields batch (case wrap m of Some f \<Rightarrow> f | None \<Rightarrow> V Null) ds = page_yields batch m ds"
  by (simp add: page_yields_def resolve_wrap)

section \<open>The limit\<close>

lemma number_exact: "n \<le> 2 ^ 53 \<Longrightarrow> number n = n"
  by (simp add: number_def)

lemma positive_limit: "0 < L \<Longrightarrow> L \<le> 2 ^ 53 \<Longrightarrow> positive (V (Num L)) = Some L"
proof -
  assume p: "0 < L" and b: "L \<le> 2 ^ 53"
  then have n: "nat L \<le> 2 ^ 53" by simp
  then have "nat L < 10 ^ 21" "nat L < 2 ^ 1024" by simp_all
  with p n show ?thesis by (simp add: parseInt_number_def number_exact)
qed

lemma sevens_function: "is_function sevens"
  by (simp add: sevens_def)

lemma sevens_yields: "yields sevens [Arr [Num 7] [], Arr [Num 7] []]"
  by (auto simp: yields_def sevens_def resolve_def less_Suc_eq)

lemma sevens_page_yields: "page_yields resolving sevens [[Num 7], [Num 7]]"
  by (auto simp: page_yields_def sevens_def resolve_def resolving_def less_Suc_eq)

text \<open>
  C4, as the code has it: the claim holds for a count that a number holds exactly and a
  destination that does not fail. For an integer limit \<open>L\<close> with \<open>0 < L \<le> 2\<^sup>5\<^sup>3\<close>, a source
  that yields (at least) \<open>L\<close> values and no destination or one that accepts each of them,
  \<^verbatim>\<open>sequence\<close> returns (\<open>L\<close> iterations are enough) and resolves with
  \<^verbatim>\<open>{total: L, duration}\<close>, or with the array of the \<open>L\<close> values when \<^verbatim>\<open>track\<close> is set, after
  exactly \<open>L\<close> calls of the source; and for a source that yields (at least) \<open>L\<close> pages
  which \<^verbatim>\<open>batch\<close> resolves, \<^verbatim>\<open>page\<close> resolves with \<^verbatim>\<open>{pages: L, total, duration}\<close>, \<^verbatim>\<open>total\<close>
  the sum of the page sizes, after exactly \<open>L\<close> calls of the source. Nothing is asked of
  the source beyond index \<open>L\<close> - 1.
\<close>

theorem limit_ends_the_run:
  assumes f: "is_function source0" and a: "accepts (wrap dest0) vs"
    and p: "vs \<noteq> []" and b: "int (length vs) \<le> 2 ^ 53" and n: "length vs \<le> fuel"
  shows "(yields source0 vs \<longrightarrow>
           (\<exists>s. sequence clk fuel source0 dest0 (V (Num (int (length vs)))) track0 =
              Some (Resolved
                     (if truthy_arg track0
                      then Arr vs [(''duration'', Num (clk (ticks s - 1) - clk 0))]
                      else Obj [(''total'', Num (int (length vs))),
                                (''duration'', Num (clk (ticks s - 1) - clk 0))] [] False), s) \<and>
              pulls (trace s) = length vs)) \<and>
         (\<forall>ds. vs = map (\<lambda>d. Arr d []) ds \<and> page_yields batch source0 ds \<longrightarrow>
           (\<exists>s. page batch clk fuel source0 dest0 (V (Num (int (length vs)))) =
              Some (Resolved
                     (Obj [(''pages'', Num (int (length vs))),
                           (''total'', Num (\<Sum>d\<leftarrow>ds. int (length d))),
                           (''duration'', Num (clk (ticks s - 1) - clk 0))] [] False), s) \<and>
              pulls (trace s) = length vs))"
proof (intro conjI impI allI)
  assume y: "yields source0 vs"
  let ?e = "driver_env clk source0 dest0 (V (Num (int (length vs)))) track0"
  have l: "positive (V (Num (int (length vs)))) = Some (int (length vs))"
    using p b by (intro positive_limit) simp_all
  have 1: "yields (source ?e) vs" using f y by (simp add: driver_env_def yields_wrap)
  have 3: "accepts (dest ?e) vs" using a by (simp add: driver_env_def)
  have 4: "limit ?e = int (length vs)" using l b by (simp add: driver_env_def)
  have 5: "0 < length vs" using p by simp
  from sequence_loop_limited [OF 1 3 4 5, of sequence_init fuel] n
  obtain s where "sequence_loop fuel ?e 0 sequence_init =
      Some (Resolved (closing ?e (length vs) vs (ticks s - 1)), s)"
    "pulls (trace s) = pulls (trace sequence_init) + (length vs - 0)"
    by (auto simp: previous_def sequence_init_def)
  then show "\<exists>s. sequence clk fuel source0 dest0 (V (Num (int (length vs)))) track0 =
              Some (Resolved
                     (if truthy_arg track0
                      then Arr vs [(''duration'', Num (clk (ticks s - 1) - clk 0))]
                      else Obj [(''total'', Num (int (length vs))),
                                (''duration'', Num (clk (ticks s - 1) - clk 0))] [] False), s) \<and>
              pulls (trace s) = length vs"
    using f
    by (auto simp: sequence_def closing_def driver_env_def sequence_init_def pulls_def)
next
  fix ds
  assume "vs = map (\<lambda>d. Arr d []) ds \<and> page_yields batch source0 ds"
  then have v: "vs = map (\<lambda>d. Arr d []) ds" and y: "page_yields batch source0 ds" by simp_all
  let ?e = "driver_env clk source0 dest0 (V (Num (int (length vs)))) (V Undefined)"
  have l: "positive (V (Num (int (length vs)))) = Some (int (length vs))"
    using p b by (intro positive_limit) simp_all
  have 1: "page_yields batch (source ?e) ds" using f y by (simp add: driver_env_def page_yields_wrap)
  have 3: "accepts (dest ?e) (map (\<lambda>d. Arr d []) ds)" using a v by (simp add: driver_env_def)
  have 4: "limit ?e = int (length ds)" using l v b by (simp add: driver_env_def)
  have 5: "0 < length ds" using p v by simp
  from page_loop_limited [OF 1 3 4 5, of page_init fuel] n v
  obtain s where "page_loop fuel batch ?e 0 page_init =
      Some (Resolved (page_closing ?e ds (ticks s - 1)), s)"
    "pulls (trace s) = pulls (trace page_init) + (length ds - 0)"
    by (auto simp: previous_def page_init_def)
  then show "\<exists>s. page batch clk fuel source0 dest0 (V (Num (int (length vs)))) =
              Some (Resolved
                     (Obj [(''pages'', Num (int (length vs))),
                           (''total'', Num (\<Sum>d\<leftarrow>ds. int (length d))),
                           (''duration'', Num (clk (ticks s - 1) - clk 0))] [] False), s) \<and>
              pulls (trace s) = length vs"
    using f v
    by (auto simp: page_def page_closing_def driver_env_def page_init_def pulls_def)
qed


theorem limit_ends_the_run_witness:
  "is_function sevens \<and> accepts (wrap patient) [Arr [Num 7] [], Arr [Num 7] []] \<and>
   [Arr [Num 7] [], Arr [Num 7] []] \<noteq> [] \<and>
   int (length [Arr [Num 7] [], Arr [Num 7] []]) \<le> 2 ^ 53 \<and>
   length [Arr [Num 7] [], Arr [Num 7] []] \<le> (2::nat) \<and>
   yields sevens [Arr [Num 7] [], Arr [Num 7] []] \<and>
   page_yields resolving sevens [[Num 7], [Num 7]] \<and>
   (\<exists>s. sequence ticking 2 sevens patient (V (Num 2)) (V (Bool True)) =
      Some (Resolved (Arr [Arr [Num 7] [], Arr [Num 7] []]
              [(''duration'', Num (ticking (ticks s - 1) - ticking 0))]), s) \<and>
      pulls (trace s) = length [Arr [Num 7] [], Arr [Num 7] []]) \<and>
   (\<exists>s. page resolving ticking 2 sevens patient (V (Num 2)) =
      Some (Resolved (Obj [(''pages'', Num 2), (''total'', Num 2),
              (''duration'', Num (ticking (ticks s - 1) - ticking 0))] [] False), s) \<and>
      pulls (trace s) = length [Arr [Num 7] [], Arr [Num 7] []])"
proof -
  note t = limit_ends_the_run [of sevens patient "[Arr [Num 7] [], Arr [Num 7] []]" 2
      ticking "V (Bool True)" resolving, OF sevens_function patient_accepts]
  have "[Arr [Num 7] [], Arr [Num 7] []] = map (\<lambda>d. Arr d []) [[Num 7], [Num 7]]" by simp
  with t sevens_yields sevens_page_yields sevens_function patient_accepts show ?thesis
    by force
qed

lemma counter_refused:
  "map_option fst (sequence ticking 2 counter thrower (V (Num 2)) (V Undefined)) =
     Some (Rejected (Obj [(''index'', Num 0), (''error'', Str ''boom''), (''dest'', Num 0)] [] False))"
  by (simp add: sequence_def driver_env_def sequence_init_def sequence_turn_def counter_def thrower_def
      resolve_def ticking_def positive_limit numeral_2_eq_2)

text \<open>
  C4 as stated fails: the source \<open>counter\<close> never ends, and with the limit 2 and a
  destination that throws, \<^verbatim>\<open>sequence\<close> rejects at index 0, after one call of the source.
\<close>

theorem limit_counterexample:
  "map_option fst (sequence ticking 2 counter thrower (V (Num 2)) (V Undefined)) =
     Some (Rejected (Obj [(''index'', Num 0), (''error'', Str ''boom''), (''dest'', Num 0)] [] False))"
  using counter_refused by simp

section \<open>The stream reader\<close>

lemma read_pages_adds:
  "\<forall>acc. \<exists>new. fst (read_pages b sz acc) =
      (fst acc @ new, fst (snd acc) + sum_list (map length_of new), snd (snd acc) + int (length new))"
  "\<forall>acc r. read_page c sz acc = Some r \<longrightarrow> (\<exists>new. fst r =
      (fst acc @ new, fst (snd acc) + sum_list (map length_of new), snd (snd acc) + int (length new)))"
proof (induction b and c)
  case (Reader rd)
  show ?case
  proof
    fix acc
    show "\<exists>new. fst (read_pages (Reader rd) sz acc) =
      (fst acc @ new, fst (snd acc) + sum_list (map length_of new), snd (snd acc) + int (length new))"
    proof (cases "read_page (rd sz) sz acc")
      case None
      then have "fst (read_pages (Reader rd) sz acc) =
        (fst acc @ [], fst (snd acc) + sum_list (map length_of []), snd (snd acc) + int (length ([]::val list)))"
        by simp
      then show ?thesis by blast
    next
      case (Some r)
      have "rd sz \<in> range rd" by simp
      from Reader [OF this] Some obtain new where "fst r =
        (fst acc @ new, fst (snd acc) + sum_list (map length_of new), snd (snd acc) + int (length new))"
        by blast
      with Some show ?thesis by auto
    qed
  qed
next
  case Nothing
  show ?case by simp
next
  case (Chunk pg rest)
  show ?case
  proof (intro allI impI)
    fix acc r
    assume a: "read_page (Chunk pg rest) sz acc = Some r"
    show "\<exists>new. fst r =
      (fst acc @ new, fst (snd acc) + sum_list (map length_of new), snd (snd acc) + int (length new))"
    proof (cases "truthy pg")
      case True
      let ?acc = "(fst acc @ [pg], fst (snd acc) + length_of pg, snd (snd acc) + 1)"
      from Chunk obtain new where "fst (read_pages rest sz ?acc) =
        (fst ?acc @ new, fst (snd ?acc) + sum_list (map length_of new), snd (snd ?acc) + int (length new))"
        by blast
      with a True have "fst r = (fst acc @ (pg # new),
          fst (snd acc) + sum_list (map length_of (pg # new)), snd (snd acc) + int (length (pg # new)))"
        by auto
      then show ?thesis by blast
    next
      case False
      with a have "fst r = (fst acc @ [], fst (snd acc) + sum_list (map length_of []),
          snd (snd acc) + int (length ([]::val list)))"
        by auto
      then show ?thesis by blast
    qed
  qed
qed

lemma process_idle: "\<not> ready s \<Longrightarrow> process e s = s"
  by (subst process.simps) simp


lemma read_pages_from_empty:
  "\<exists>new. fst (read_pages b sz ([], l, r)) =
      (new, l + sum_list (map length_of new), r + int (length new))"
  using read_pages_adds(1) [of b sz] by (metis append_Nil fst_conv snd_conv)

lemma chunks_read_append [simp]: "chunks_read (tr @ tr') = chunks_read tr @ chunks_read tr'"
  by (induction tr rule: chunks_read.induct) simp_all

lemma receiver_calls_append [simp]: "receiver_calls (tr @ tr') = receiver_calls tr + receiver_calls tr'"
  by (induction tr rule: receiver_calls.induct) simp_all

lemma chunks_read_StreamRead [simp]: "chunks_read (map StreamRead cs) = cs"
  by (induction cs) simp_all

lemma receiver_calls_StreamRead [simp]: "receiver_calls (map StreamRead cs) = 0"
  by (induction cs) simp_all

lemma foreign_own:
  assumes "foreign ls"
  shows "(n, OnReadable) \<notin> set ls" "(n, OnEnd) \<notin> set ls" "(n, OnClose) \<notin> set ls"
    "(n, OnError) \<notin> set ls"
  using assms by (force simp: foreign_def)+

lemma cleanup_ours:
  assumes "foreign ls"
  shows "listeners (cleanup (s\<lparr>listeners := ls @ ours\<rparr>)) = ls"
    and "listeners (cleanup (s\<lparr>listeners := ls\<rparr>)) = ls"
  using foreign_own [OF assms]
  by (simp_all add: cleanup_def removeListener_def ours_def remove1_append remove1_idem)

lemma cleanup_attached:
  assumes "foreign ls" "attached ls s"
  shows "listeners (cleanup s) = ls"
proof -
  have "s = s\<lparr>listeners := listeners s\<rparr>" by simp
  with assms(2) have "s = s\<lparr>listeners := ls @ ours\<rparr> \<or> s = s\<lparr>listeners := ls\<rparr>"
    by (simp add: attached_def split: if_splits)
  with cleanup_ours [OF assms(1), of s] show ?thesis by metis
qed

lemma cleanup_others [simp]:
  "settled (cleanup s) = settled s" "trace (cleanup s) = trace s" "index (cleanup s) = index s"
  "reads (cleanup s) = reads s" "length_r (cleanup s) = length_r s" "ticks (cleanup s) = ticks s"
  by (simp_all add: cleanup_def)

lemma success_keeps:
  assumes "foreign ls" "attached ls s" "counted s"
  shows "attached ls (success e s) \<and> counted (success e s)"
  using assms cleanup_attached [OF assms(1,2)]
  by (auto simp: success_def conclude_def attached_def counted_def Let_def split: option.splits)

lemma success_resolves:
  assumes "counted s" "settled s = None"
  shows "settled (success e s) = Some (Resolved (summary e s))"
  using assms by (simp add: success_def conclude_def counted_def summary_def Let_def)

lemma fail_keeps:
  assumes "foreign ls" "attached ls s" "counted s"
  shows "attached ls (fail x s) \<and> counted (fail x s)"
proof -
  have "attached ls (s\<lparr>stop := True\<rparr>)" using assms(2) by (simp add: attached_def)
  from cleanup_attached [OF assms(1) this] assms(3) show ?thesis
    by (auto simp: fail_def conclude_def attached_def counted_def split: option.splits)
qed

lemma fail_settles:
  "settled (fail x s) = (case settled s of None \<Rightarrow> Some (Rejected x) | Some y \<Rightarrow> Some y)"
  by (simp add: fail_def conclude_def split: option.splits)


lemma kept_refl: "kept ls s s"
  by (simp add: kept_def)

lemma kept_trans:
  assumes st: "kept ls s t" and tu: "kept ls t u"
  shows "kept ls s u"
proof -
  from st have 1: "attached ls s \<and> counted s \<longrightarrow> attached ls t \<and> counted t"
    and 2: "settled t = settled s \<or> (settled s = None \<and> (\<exists>x. settled t = Some (Rejected x)))"
    unfolding kept_def by blast+
  from tu have 3: "attached ls t \<and> counted t \<longrightarrow> attached ls u \<and> counted u"
    and 4: "settled u = settled t \<or> (settled t = None \<and> (\<exists>x. settled u = Some (Rejected x)))"
    unfolding kept_def by blast+
  from 1 3 have 5: "attached ls s \<and> counted s \<longrightarrow> attached ls u \<and> counted u" by blast
  from 2 4 have 6: "settled u = settled s \<or> (settled s = None \<and> (\<exists>x. settled u = Some (Rejected x)))"
    by auto
  from 5 6 show ?thesis unfolding kept_def by blast
qed

lemma kept_fail:
  assumes "foreign ls"
  shows "kept ls s (fail x s)"
proof -
  have "attached ls s \<and> counted s \<longrightarrow> attached ls (fail x s) \<and> counted (fail x s)"
    using fail_keeps [OF assms, of s x] by blast
  moreover have "settled (fail x s) = settled s \<or>
      (settled s = None \<and> (\<exists>y. settled (fail x s) = Some (Rejected y)))"
    by (cases "settled s") (simp_all add: fail_settles)
  ultimately show ?thesis unfolding kept_def by blast
qed

lemma kept_update:
  assumes "listeners t = listeners s" "settled t = settled s"
    "counted s \<longrightarrow> counted t"
  shows "kept ls s t"
  using assms by (simp add: kept_def attached_def)

lemma process_kept:
  assumes f: "foreign ls"
  shows "kept ls s (process e s)"
proof (cases "\<not> ready s \<or> stop s \<or> waiting s")
  case True
  then have "process e s = s" by (subst process.simps) simp
  then show ?thesis by (simp add: kept_refl)
next
  case False
  obtain new where rp: "fst (read_pages (buffer s) (readSize e) ([], length_r s, reads s)) =
      (new, length_r s + sum_list (map length_of new), reads s + int (length new))"
    using read_pages_from_empty by blast
  define s2 where "s2 = s\<lparr>ready := False, waiting := True,
      length_r := length_r s + sum_list (map length_of new), reads := reads s + int (length new),
      buffer := snd (read_pages (buffer s) (readSize e) ([], length_r s, reads s)),
      trace := trace s @ map StreamRead new\<rparr>"
  have k2: "kept ls s s2"
    by (rule kept_update) (simp_all add: s2_def counted_def)
  show ?thesis
  proof (cases "new = []")
    case True
    with False rp have "process e s = s2\<lparr>waiting := False\<rparr>"
      by (subst process.simps) (simp add: Let_def s2_def)
    moreover have "kept ls s2 (s2\<lparr>waiting := False\<rparr>)"
      by (rule kept_update) (simp_all add: counted_def)
    ultimately show ?thesis using kept_trans [OF k2] by simp
  next
    case ne: False
    define args where "args = [Num (int (index s2)), Arr new [],
        if index s2 \<noteq> 0 then Num (now e (ticks s2) - cbTime s2) else Undefined]"
    define s3 where "s3 = s2\<lparr>ticks := Suc (ticks s2), cbTime := now e (ticks s2),
        index := Suc (index s2), trace := trace s2 @ [ReceiverCall (index s2) args]\<rparr>"
    have k3: "kept ls s s3"
      by (rule kept_trans [OF k2], rule kept_update) (simp_all add: s3_def counted_def)
    have p: "process e s =
      (case call (receiver e) args of
         Throw err \<Rightarrow> fail err s3
       | Return ret \<Rightarrow> (case ret of Promise p \<Rightarrow> s3\<lparr>awaited := Some p\<rparr>
                        | _ \<Rightarrow> process e (s3\<lparr>waiting := False\<rparr>)))"
      using False rp ne
      by (subst process.simps)
         (simp add: Let_def s2_def s3_def args_def
            cong: if_cong completion.case_cong mixed.case_cong)
    have idle: "process e (s3\<lparr>waiting := False\<rparr>) = s3\<lparr>waiting := False\<rparr>"
      by (rule process_idle) (simp add: s3_def s2_def)
    have kw: "kept ls s (s3\<lparr>waiting := False\<rparr>)"
      by (rule kept_trans [OF k3], rule kept_update) (simp_all add: counted_def)
    show ?thesis
    proof (cases "call (receiver e) args")
      case (Throw err)
      with p have "process e s = fail err s3" by simp
      with kept_trans [OF k3 kept_fail [OF f, of s3 err]] show ?thesis by simp
    next
      case (Return ret)
      show ?thesis
      proof (cases ret)
        case (Promise q)
        with p Return have "process e s = s3\<lparr>awaited := Some q\<rparr>" by simp
        moreover have "kept ls s3 (s3\<lparr>awaited := Some q\<rparr>)"
          by (rule kept_update) (simp_all add: counted_def)
        ultimately show ?thesis using kept_trans [OF k3] by simp
      next
        case (V x)
        with p Return idle have "process e s = s3\<lparr>waiting := False\<rparr>" by simp
        with kw show ?thesis by simp
      next
        case (Fn x)
        with p Return idle have "process e s = s3\<lparr>waiting := False\<rparr>" by simp
        with kw show ?thesis by simp
      next
        case (GenFn x)
        with p Return idle have "process e s = s3\<lparr>waiting := False\<rparr>" by simp
        with kw show ?thesis by simp
      qed
    qed
  qed
qed


lemma process_keeps:
  assumes "foreign ls" "attached ls s" "counted s"
  shows "attached ls (process e s) \<and> counted (process e s)"
  using process_kept [OF assms(1), of s e] assms(2,3) unfolding kept_def by blast


lemma listener_call_keeps:
  assumes f: "foreign ls" and a: "attached ls s" and c: "counted s"
  shows "attached ls (listener_call e l x s) \<and> counted (listener_call e l x s)"
proof (cases l)
  case OnReadable
  have "attached ls (s\<lparr>ready := True\<rparr>)" "counted (s\<lparr>ready := True\<rparr>)"
    using a c by (simp_all add: attached_def counted_def)
  from process_keeps [OF f this] OnReadable show ?thesis by simp
next
  case OnEnd
  with success_keeps [OF f a c, of e] a c show ?thesis by simp
next
  case OnClose
  with success_keeps [OF f a c, of e] show ?thesis by simp
next
  case OnError
  with fail_keeps [OF f a c, of x] show ?thesis by simp
next
  case (Foreign k)
  with a c show ?thesis by simp
qed

lemma fold_listener_call_keeps:
  assumes f: "foreign ls"
  shows "attached ls s \<Longrightarrow> counted s \<Longrightarrow>
    attached ls (fold (\<lambda>l. listener_call e l x) hs s) \<and>
    counted (fold (\<lambda>l. listener_call e l x) hs s)"
proof (induction hs arbitrary: s)
  case Nil
  then show ?case by simp
next
  case (Cons h hs)
  from listener_call_keeps [OF f Cons.prems, of e h x]
  have "attached ls (listener_call e h x s)" "counted (listener_call e h x s)" by simp_all
  from Cons.IH [OF this] show ?case by simp
qed

lemma settle_keeps:
  assumes f: "foreign ls" and a: "attached ls s" and c: "counted s"
  shows "attached ls (settle e s) \<and> counted (settle e s)"
proof (cases "awaited s")
  case None
  with a c show ?thesis by (simp add: settle_def)
next
  case (Some p)
  show ?thesis
  proof (cases p)
    case (Fulfil y)
    let ?t = "s\<lparr>awaited := None, waiting := False, trace := trace s @ [ReceiverSettled]\<rparr>"
    have "attached ls ?t" "counted ?t" using a c by (simp_all add: attached_def counted_def)
    from process_keeps [OF f this] Some Fulfil show ?thesis by (simp add: settle_def)
  next
    case (RejectWith err)
    have "attached ls (s\<lparr>awaited := None\<rparr>)" "counted (s\<lparr>awaited := None\<rparr>)"
      using a c by (simp_all add: attached_def counted_def)
    from fail_keeps [OF f this] Some RejectWith show ?thesis by (simp add: settle_def)
  next
    case Pending
    with Some a c show ?thesis by (simp add: settle_def)
  qed
qed

lemma step_keeps:
  assumes f: "foreign ls" and a: "attached ls s" and c: "counted s"
  shows "attached ls (step e stim s) \<and> counted (step e stim s)"
proof (cases stim)
  case (Emit name x)
  with fold_listener_call_keeps [OF f a c] show ?thesis by (simp add: emit_def)
next
  case (Arrive r)
  with a c show ?thesis by (simp add: attached_def counted_def)
next
  case Settle
  with settle_keeps [OF f a c] show ?thesis by simp
qed

lemma run_keeps:
  assumes f: "foreign ls"
  shows "attached ls s \<Longrightarrow> counted s \<Longrightarrow>
    attached ls (run e stimuli s) \<and> counted (run e stimuli s)"
proof (induction stimuli arbitrary: s)
  case Nil
  then show ?case by (simp add: run_def)
next
  case (Cons stim stimuli)
  from step_keeps [OF f Cons.prems, of e stim]
  have "attached ls (step e stim s)" "counted (step e stim s)" by simp_all
  from Cons.IH [OF this] show ?case by (simp add: run_def)
qed

lemma read_starts:
  assumes "read clk (Stream ls buf) receiver0 closable0 readSize0 = Inr (e, s0)"
  shows "attached ls s0 \<and> counted s0 \<and> settled s0 = None"
  using assms
  by (auto simp: read_def attached_def counted_def ours_def split: if_splits)

lemma foreign_bystander: "foreign bystander"
  by (simp add: foreign_def bystander_def)

lemma read_listening:
  "read ticking (Stream bystander buffered) patient (V Undefined) (V Undefined) =
     Inr (listening_env, listening)"
  by (simp add: read_def patient_def ticking_def ours_def listening_env_def listening_def)


lemma listening_end:
  "settled (run listening_env [Emit ''readable'' Undefined, Emit ''end'' Undefined] listening) =
     Some (Resolved (Obj [(''calls'', Num 1), (''reads'', Num 2), (''length'', Num 3),
                          (''duration'', Num 2)] [] False))"
  by (simp add: run_def emit_def ours_def bystander_def process.simps success_def cleanup_def
      removeListener_def conclude_def listening_env_def listening_def patient_def buffered_def
      drained_def ticking_def)

lemma listening_error:
  "settled (run listening_env [Emit ''error'' (Str ''broken'')] listening) =
     Some (Rejected (Str ''broken''))"
  by (simp add: run_def emit_def ours_def bystander_def fail_def cleanup_def
      removeListener_def conclude_def listening_env_def listening_def)


text \<open>
  C9: whatever happens to an invocation of \<^verbatim>\<open>read\<close> (events of the stream, data arriving,
  the receiver's promise settling, in any order and number), the stream carries the
  listeners it had before, followed by the four of this invocation (\<^verbatim>\<open>readable\<close>, \<^verbatim>\<open>end\<close>,
  \<^verbatim>\<open>close\<close>, \<^verbatim>\<open>error\<close>), exactly as long as the promise is pending; once it has settled,
  resolved or rejected, the stream carries the listeners it had before and none of this
  invocation, and so it stays. \<^verbatim>\<open>success\<close> and \<^verbatim>\<open>fail\<close> call \<^verbatim>\<open>cleanup\<close> before they settle the
  promise.
\<close>

theorem read_listeners_gone_when_settled:
  assumes "read clk (Stream ls buf) receiver0 closable0 readSize0 = Inr (e, s0)"
    and "foreign ls"
  shows "listeners (run e stimuli s0) =
           (if settled (run e stimuli s0) = None then ls @ ours else ls)"
proof -
  from read_starts [OF assms(1)] have "attached ls s0" "counted s0" by simp_all
  from run_keeps [OF assms(2) this] show ?thesis by (simp add: attached_def)
qed

theorem read_listeners_gone_when_settled_witness:
  "read ticking (Stream bystander buffered) patient (V Undefined) (V Undefined) =
     Inr (listening_env, listening) \<and>
   foreign bystander \<and>
   settled (run listening_env [] listening) = None \<and>
   listeners (run listening_env [] listening) = bystander @ ours \<and>
   settled (run listening_env [Emit ''readable'' Undefined, Emit ''end'' Undefined] listening) =
     Some (Resolved (Obj [(''calls'', Num 1), (''reads'', Num 2), (''length'', Num 3),
                          (''duration'', Num 2)] [] False)) \<and>
   listeners (run listening_env [Emit ''readable'' Undefined, Emit ''end'' Undefined] listening) =
     bystander \<and>
   settled (run listening_env [Emit ''error'' (Str ''broken'')] listening) =
     Some (Rejected (Str ''broken'')) \<and>
   listeners (run listening_env [Emit ''error'' (Str ''broken'')] listening) = bystander"
proof -
  note t = read_listeners_gone_when_settled [OF read_listening foreign_bystander]
  have 0: "settled (run listening_env [] listening) = None"
    by (simp add: run_def listening_def)
  from t [of "[]"] 0
  have 1: "listeners (run listening_env [] listening) = bystander @ ours" by simp
  from t [of "[Emit ''readable'' Undefined, Emit ''end'' Undefined]"] listening_end
  have 2: "listeners (run listening_env [Emit ''readable'' Undefined, Emit ''end'' Undefined]
             listening) = bystander" by simp
  from t [of "[Emit ''error'' (Str ''broken'')]"] listening_error
  have 3: "listeners (run listening_env [Emit ''error'' (Str ''broken'')] listening) = bystander"
    by simp
  from read_listening foreign_bystander 0 1 2 3 listening_end listening_error
  show ?thesis by blast
qed








end
